theory Spec2Isabelle
  imports Main "HOL-Library.AList" "HOL-Library.Multiset" "HOL-Library.Sublist"
begin

section \<open>The regular expressions of Python's \<open>re\<close> module\<close>

text \<open>
  The extractor is written with Python 2 regular expressions on byte strings and no flags.
  A pattern is kept as a syntax tree. \<open>Cls cs\<close> is one character out of \<open>cs\<close> (a literal
  character is a class of one), \<open>NCls cs\<close> is \<^verbatim>\<open>[^...]\<close>, \<open>Ahead\<close> is \<^verbatim>\<open>(?=...)\<close>,
  \<open>Behind n\<close> is \<^verbatim>\<open>(?<=...)\<close> of width \<open>n\<close>, \<open>Grp k\<close> is the capturing group number \<open>k\<close>,
  \<open>WordB\<close> is \<^verbatim>\<open>\b\<close> and \<open>Eol\<close> is \<^verbatim>\<open>$\<close>.
\<close>

datatype regex =
    Eps
  | Cls "char list"
  | NCls "char list"
  | Seq regex regex
  | Alt regex regex
  | Star regex
  | Ahead regex
  | Behind nat regex
  | Grp nat regex
  | WordB
  | Eol

text \<open>
  A matcher state is the text already passed (reversed, nearest character first), the
  text still ahead, and the groups captured so far (latest first).
\<close>

type_synonym mstate = "string \<times> string \<times> (nat \<times> string) list"

definition ahead :: "mstate \<Rightarrow> string" where
  "ahead st = fst (snd st)"

definition lower_az :: string where
  "lower_az = ''abcdefghijklmnopqrstuvwxyz''"

definition upper_AZ :: string where
  "upper_AZ = ''ABCDEFGHIJKLMNOPQRSTUVWXYZ''"

definition digits :: string where
  "digits = ''0123456789''"

text \<open>\<^verbatim>\<open>\s\<close> on a byte string: space, tab, newline, vertical tab, form feed, carriage return.\<close>

definition whitespace :: string where
  "whitespace = [CHR 0x20, CHR 0x09, CHR 0x0A, CHR 0x0B, CHR 0x0C, CHR 0x0D]"

text \<open>\<^verbatim>\<open>\w\<close> on a byte string: letters, digits and the underscore.\<close>

definition word_chars :: string where
  "word_chars = lower_az @ upper_AZ @ digits @ ''_''"

definition is_word :: "string \<Rightarrow> bool" where
  "is_word s = (case s of [] \<Rightarrow> False | c # _ \<Rightarrow> c \<in> set word_chars)"

text \<open>
  A greedy repetition tries one more round of the body first and gives up the round
  last. Every round must pass at least one character, so the number of rounds is bounded
  by the length of the text ahead, which is the fuel \<open>star_iter\<close> is called with.
\<close>

primrec star_iter :: "(mstate \<Rightarrow> mstate list) \<Rightarrow> nat \<Rightarrow> mstate \<Rightarrow> mstate list" where
  "star_iter f 0 st = [st]"
| "star_iter f (Suc n) st =
     concat (map (star_iter f n)
       (filter (\<lambda>st'. length (ahead st') < length (ahead st)) (f st))) @ [st]"

text \<open>
  \<open>ms r st\<close> lists every way \<open>r\<close> matches at \<open>st\<close>, as the state after the match, in the
  order in which the backtracking matcher of \<open>re\<close> tries them: the head of the list is the
  match \<open>re\<close> reports.
\<close>

primrec ms :: "regex \<Rightarrow> mstate \<Rightarrow> mstate list" where
  "ms Eps = (\<lambda>st. [st])"
| "ms (Cls cs) = (\<lambda>(b, r, g).
     case r of [] \<Rightarrow> [] | c # r' \<Rightarrow> if c \<in> set cs then [(c # b, r', g)] else [])"
| "ms (NCls cs) = (\<lambda>(b, r, g).
     case r of [] \<Rightarrow> [] | c # r' \<Rightarrow> if c \<in> set cs then [] else [(c # b, r', g)])"
| "ms (Seq p q) = (\<lambda>st. concat (map (ms q) (ms p st)))"
| "ms (Alt p q) = (\<lambda>st. ms p st @ ms q st)"
| "ms (Star p) = (\<lambda>st. star_iter (ms p) (length (ahead st)) st)"
| "ms (Ahead p) = (\<lambda>st. if ms p st = [] then [] else [st])"
| "ms (Behind n p) = (\<lambda>(b, r, g).
     if length b < n then []
     else if ms p (drop n b, rev (take n b) @ r, g) = [] then [] else [(b, r, g)])"
| "ms (Grp k p) = (\<lambda>(b, r, g).
     map (\<lambda>(b', r', g'). (b', r', (k, rev (take (length b' - length b) b')) # g'))
       (ms p (b, r, g)))"
| "ms WordB = (\<lambda>(b, r, g). if is_word b \<noteq> is_word r then [(b, r, g)] else [])"
| "ms Eol = (\<lambda>(b, r, g). if r = [] \<or> r = [CHR 0x0A] then [(b, r, g)] else [])"

text \<open>How patterns are put together: a literal string, alternation, \<^verbatim>\<open>+\<close>, \<^verbatim>\<open>?\<close>, sequence.\<close>

primrec str :: "string \<Rightarrow> regex" where
  "str [] = Eps"
| "str (c # cs) = Seq (Cls [c]) (str cs)"

fun alts :: "regex list \<Rightarrow> regex" where
  "alts [] = Eps"
| "alts [r] = r"
| "alts (r # rs) = Alt r (alts rs)"

definition plus :: "regex \<Rightarrow> regex" where
  "plus r = Seq r (Star r)"

definition opt :: "regex \<Rightarrow> regex" where
  "opt r = Alt r Eps"

primrec seqs :: "regex list \<Rightarrow> regex" where
  "seqs [] = Eps"
| "seqs (r # rs) = Seq r (seqs rs)"

definition ws :: regex where
  "ws = Cls whitespace"

definition wd :: regex where
  "wd = Cls word_chars"

text \<open>
  \<open>search\<close> is the scan of \<open>re\<close> for the leftmost match: the first start, from the current
  place on, at which the pattern matches. It returns the text passed before the match
  and the state after it.
\<close>

primrec search :: "regex \<Rightarrow> string \<Rightarrow> string \<Rightarrow> (string \<times> mstate) option" where
  "search r b [] = (case ms r (b, [], []) of [] \<Rightarrow> None | m # _ \<Rightarrow> Some (b, m))"
| "search r b (c # cs) =
     (case ms r (b, c # cs, []) of [] \<Rightarrow> search r (c # b) cs | m # _ \<Rightarrow> Some (b, m))"


subsection \<open>The fuel of a repetition is enough\<close>

text \<open>
  More fuel than the length of the text ahead changes nothing: no repetition is cut short
  by the bound.
\<close>

lemma star_iter_fuel:
  "length (ahead st) \<le> n \<Longrightarrow> star_iter f n st = star_iter f (length (ahead st)) st"
proof (induction n arbitrary: st rule: less_induct)
  case (less n)
  show ?case
  proof (cases n)
    case 0
    with less.prems show ?thesis by simp
  next
    case (Suc m)
    show ?thesis
    proof (cases "length (ahead st)")
      case 0
      then show ?thesis by (simp add: Suc)
    next
      case k: (Suc k)
      let ?F = "filter (\<lambda>st'. length (ahead st') < Suc k) (f st)"
      have "star_iter f m st' = star_iter f k st'" if "st' \<in> set ?F" for st'
      proof -
        from that have l: "length (ahead st') \<le> k" by simp
        with less.prems k Suc have "length (ahead st') \<le> m" by simp
        from less.IH [OF _ this] Suc have "star_iter f m st' = star_iter f (length (ahead st')) st'"
          by simp
        moreover from less.prems k Suc have "k < n" by simp
        from less.IH [OF this l] have "star_iter f k st' = star_iter f (length (ahead st')) st'" .
        ultimately show ?thesis by simp
      qed
      then have eq: "map (star_iter f m) ?F = map (star_iter f k) ?F"
        by (intro map_cong refl)
      show ?thesis
        by (simp only: Suc k star_iter.simps eq)
    qed
  qed
qed

subsection \<open>Matches only move forward\<close>

lemma star_iter_len:
  assumes f: "\<And>b r g b' r' g'. (b', r', g') \<in> set (f (b, r, g)) \<Longrightarrow>
      length b \<le> length b' \<and> length b' + length r' = length b + length r"
  shows "(b', r', g') \<in> set (star_iter f n (b, r, g)) \<Longrightarrow>
      length b \<le> length b' \<and> length b' + length r' = length b + length r"
proof (induction n arbitrary: b r g)
  case 0
  then show ?case by simp
next
  case (Suc n)
  from Suc.prems consider "(b', r', g') = (b, r, g)"
    | b1 r1 g1 where "(b1, r1, g1) \<in> set (f (b, r, g))"
        and "(b', r', g') \<in> set (star_iter f n (b1, r1, g1))"
    by auto
  then show ?case
  proof cases
    case 1
    then show ?thesis by simp
  next
    case 2
    from f [OF 2(1)] Suc.IH [OF 2(2)] show ?thesis by linarith
  qed
qed

lemma ms_len:
  "(b', r', g') \<in> set (ms p (b, r, g)) \<Longrightarrow>
     length b \<le> length b' \<and> length b' + length r' = length b + length r"
proof (induction p arbitrary: b r g b' r' g')
  case (Seq p q)
  from Seq.prems obtain b1 r1 g1 where 1: "(b1, r1, g1) \<in> set (ms p (b, r, g))"
    and 2: "(b', r', g') \<in> set (ms q (b1, r1, g1))"
    by auto
  from Seq.IH(1) [OF 1] Seq.IH(2) [OF 2] show ?case by linarith
next
  case (Star p)
  from Star.prems have "(b', r', g') \<in> set (star_iter (ms p) (length r) (b, r, g))"
    by (simp add: ahead_def)
  then show ?case
    by (rule star_iter_len [rotated]) (rule Star.IH)
next
  case (Grp k p)
  from Grp.prems obtain g1 where "(b', r', g1) \<in> set (ms p (b, r, g))"
    by auto
  from Grp.IH [OF this] show ?case .
qed (auto split: list.splits if_splits)

lemma search_len:
  "search p b r = Some (bm, be, re, g) \<Longrightarrow>
     length b \<le> length bm \<and> length bm \<le> length be \<and>
     length be + length re = length b + length r"
proof (induction r arbitrary: b)
  case Nil
  then obtain ms' where m: "ms p (b, [], []) = (be, re, g) # ms'" and "bm = b"
    by (auto split: list.splits)
  from m have "(be, re, g) \<in> set (ms p (b, [], []))" by simp
  from ms_len [OF this] \<open>bm = b\<close> show ?case by simp
next
  case (Cons c cs)
  show ?case
  proof (cases "ms p (b, c # cs, [])")
    case Nil
    with Cons.prems have "search p (c # b) cs = Some (bm, be, re, g)" by simp
    from Cons.IH [OF this] show ?thesis by simp
  next
    case (Cons m ms')
    with Cons.prems have "m = (be, re, g)" and "bm = b" by simp_all
    with Cons have "(be, re, g) \<in> set (ms p (b, c # cs, []))" by simp
    from ms_len [OF this] \<open>bm = b\<close> show ?thesis by simp
  qed
qed

subsection \<open>\<open>re.sub\<close>, \<open>re.findall\<close> and \<open>re.match\<close>\<close>

text \<open>
  \<open>re.sub\<close> with a constant replacement. The loop of the C implementation keeps the
  place up to which the text is copied and the place where the next scan starts; \<open>gap\<close>
  is the text between the two (one character at most, after an empty match) and \<open>n\<close>
  counts the replacements. An empty match right at the end of the previous match is
  skipped. After an empty match the scan goes on one character further.
\<close>

function sub_loop :: "regex \<Rightarrow> string \<Rightarrow> string \<Rightarrow> string \<Rightarrow> string \<Rightarrow> nat \<Rightarrow> string" where
  "sub_loop p repl b r gap n =
     (case search p b r of
        None \<Rightarrow> gap @ r
      | Some (bm, be, re, g) \<Rightarrow>
          (let pre = gap @ rev (take (length bm - length b) bm);
               empty = (length be = length bm) in
           if pre = [] \<and> empty \<and> 0 < n then
             (case re of [] \<Rightarrow> [] | c # cs \<Rightarrow> sub_loop p repl (c # be) cs [c] n)
           else if empty then
             pre @ repl @
               (case re of [] \<Rightarrow> [] | c # cs \<Rightarrow> sub_loop p repl (c # be) cs [c] (Suc n))
           else pre @ repl @ sub_loop p repl be re [] (Suc n)))"
  by pat_completeness auto
termination
proof (relation "measure (\<lambda>(p, repl, b, r, gap, n). length r)", goal_cases)
  case 1
  show ?case by simp
next
  case (2 p repl b r gap n x2 bm y be z re g pre empty c cs)
  then have "search p b r = Some (bm, be, c # cs, g)" by simp
  from search_len [OF this] show ?case by simp
next
  case (3 p repl b r gap n x2 bm y be z re g pre empty c cs)
  then have "search p b r = Some (bm, be, c # cs, g)" by simp
  from search_len [OF this] show ?case by simp
next
  case (4 p repl b r gap n x2 bm y be z re g pre empty)
  then have "search p b r = Some (bm, be, re, g)" and "length be \<noteq> length bm" by simp_all
  from search_len [OF this(1)] this(2) show ?case by simp
qed

declare sub_loop.simps [simp del]

definition re_sub :: "regex \<Rightarrow> string \<Rightarrow> string \<Rightarrow> string" where
  "re_sub p repl s = sub_loop p repl [] s [] 0"

text \<open>
  \<open>re.findall\<close> of a pattern with two groups gives the pair of the texts of groups 1 and 2
  for every match, scanning on from the end of each match.
\<close>

definition group :: "(nat \<times> string) list \<Rightarrow> nat \<Rightarrow> string" where
  "group g k = (case map_of g k of None \<Rightarrow> [] | Some s \<Rightarrow> s)"

function findall_loop :: "regex \<Rightarrow> string \<Rightarrow> string \<Rightarrow> (string \<times> string) list" where
  "findall_loop p b r =
     (case search p b r of
        None \<Rightarrow> []
      | Some (bm, be, re, g) \<Rightarrow>
          (group g 1, group g 2) #
            (if length be = length bm then
               (case re of [] \<Rightarrow> [] | c # cs \<Rightarrow> findall_loop p (c # be) cs)
             else findall_loop p be re))"
  by pat_completeness auto
termination
proof (relation "measure (\<lambda>(p, b, r). length r)", goal_cases)
  case 1
  show ?case by simp
next
  case (2 p b r x2 bm y be z re g c cs)
  then have "search p b r = Some (bm, be, c # cs, g)" by simp
  from search_len [OF this] show ?case by simp
next
  case (3 p b r x2 bm y be z re g)
  then have "search p b r = Some (bm, be, re, g)" and "length be \<noteq> length bm" by simp_all
  from search_len [OF this(1)] this(2) show ?case by simp
qed

declare findall_loop.simps [simp del]

definition re_findall :: "regex \<Rightarrow> string \<Rightarrow> (string \<times> string) list" where
  "re_findall p s = findall_loop p [] s"

text \<open>\<open>re.match\<close> tries the pattern at the start of the text only; its result is used as a truth value.\<close>

definition re_match :: "regex \<Rightarrow> string \<Rightarrow> bool" where
  "re_match p s = (ms p ([], s, []) \<noteq> [])"


text \<open>
  A pattern is \<open>consuming\<close> when its shape alone shows that every match passes at
  least one character. All patterns that the extractor hands to \<open>re.sub\<close> are.
\<close>

primrec consuming :: "regex \<Rightarrow> bool" where
  "consuming Eps = False"
| "consuming (Cls cs) = True"
| "consuming (NCls cs) = True"
| "consuming (Seq p q) = (consuming p \<or> consuming q)"
| "consuming (Alt p q) = (consuming p \<and> consuming q)"
| "consuming (Star p) = False"
| "consuming (Ahead p) = False"
| "consuming (Behind n p) = False"
| "consuming (Grp k p) = consuming p"
| "consuming WordB = False"
| "consuming Eol = False"

subsection \<open>The texts a pattern can pass\<close>

text \<open>
  \<open>lang p\<close> bounds the texts that a match of \<open>p\<close> passes: the assertions (lookahead,
  lookbehind, \<^verbatim>\<open>\b\<close> and \<^verbatim>\<open>$\<close>) pass no text and are taken to hold.
\<close>

inductive_set star_lang :: "string set \<Rightarrow> string set" for A :: "string set" where
  Nil: "[] \<in> star_lang A"
| App: "a \<in> A \<Longrightarrow> w \<in> star_lang A \<Longrightarrow> a @ w \<in> star_lang A"

primrec lang :: "regex \<Rightarrow> string set" where
  "lang Eps = {[]}"
| "lang (Cls cs) = {[c] | c. c \<in> set cs}"
| "lang (NCls cs) = {[c] | c. c \<notin> set cs}"
| "lang (Seq p q) = {u @ v | u v. u \<in> lang p \<and> v \<in> lang q}"
| "lang (Alt p q) = lang p \<union> lang q"
| "lang (Star p) = star_lang (lang p)"
| "lang (Ahead p) = {[]}"
| "lang (Behind n p) = {[]}"
| "lang (Grp k p) = lang p"
| "lang WordB = {[]}"
| "lang Eol = {[]}"


section \<open>The extractor \<open>EE\<close>\<close>

subsection \<open>The patterns built by \<open>__init__\<close>\<close>

text \<open>
  The patterns are attributes of the instance, built from literals only; they do not depend
  on the argument of the constructor, so they are constants here. \<open>"|".join\<close> is \<open>alts\<close>
  and string concatenation is \<open>Seq\<close>; every list entry that is joined or concatenated
  is wrapped in \<^verbatim>\<open>(?:...)\<close> by the source unless said otherwise below.
\<close>

definition common_domains :: "string list" where
  "common_domains = [''gmail'', ''gee mail'', ''g mail'', ''gml'', ''yahoo'', ''hotmail'']"

definition common_domains_regex :: regex where
  "common_domains_regex = alts (map str common_domains)"

text \<open>
  The source's list has no comma between its last two literals, so Python joins them into
  the one string \<^verbatim>\<open>g mailgml\<close>: the list has two entries.
\<close>

definition gmail_synonyms :: "string list" where
  "gmail_synonyms = [''gee mail'', ''g mailgml'']"

definition gmail_synonyms_regex :: regex where
  "gmail_synonyms_regex = alts (map str gmail_synonyms)"

definition com_synonyms :: "regex list" where
  "com_synonyms =
     [Seq (str ''com'') WordB,
      seqs [str ''co'', Star ws, Cls ''.'', Star ws, wd, wd, opt wd],
      seqs [str ''co'', plus ws, str ''dot'', plus ws, wd, wd, opt wd]]"

definition com_synonyms_regex :: regex where
  "com_synonyms_regex = alts com_synonyms"

definition spelled_out_domain_regex :: regex where
  "spelled_out_domain_regex =
     Seq common_domains_regex
       (Seq (alts [Seq (str ''dot'') (plus ws), plus (Cls ''.''), plus (Cls '',''), plus ws])
          com_synonyms_regex)"

definition at_or_arroba :: regex where
  "at_or_arroba = alts [str ''at'', str ''arroba'']"

definition behind_word :: regex where
  "behind_word = Behind 3 (Alt (seqs [wd, wd, wd]) (seqs [wd, str ''at'']))"

definition at_regexes :: "regex list" where
  "at_regexes =
     [str ''@'',
      seqs [plus (Cls ''(''), str ''@'', plus (Cls '')'')],
      seqs [plus (Cls ''[''), str ''@'', plus (Cls '']'')],
      seqs [plus (Cls ''(''), at_or_arroba, plus (Cls '')'')],
      seqs [plus (Cls ''[''), at_or_arroba, plus (Cls '']'')],
      seqs [plus (Cls ''{''), at_or_arroba, plus (Cls ''}'')],
      seqs [plus ws, at_or_arroba, str ''@''],
      seqs [str ''@at'', plus ws],
      seqs [str ''at'', plus ws, Ahead spelled_out_domain_regex],
      seqs [behind_word, plus ws, Ahead spelled_out_domain_regex],
      seqs [behind_word, str ''[]'', Ahead (opt spelled_out_domain_regex)]]"

definition at_regex :: regex where
  "at_regex = alts at_regexes"

definition at_postfix_regexes :: "regex list" where
  "at_postfix_regexes =
     [Seq (plus (Cls '','')) (Star ws),
      Seq (plus (Cls ''.'')) (Star ws)]"

definition at_postfix_regex :: regex where
  "at_postfix_regex = opt (alts at_postfix_regexes)"

definition full_at_regex :: regex where
  "full_at_regex = seqs [at_regex, at_postfix_regex, Star ws]"

definition alnum :: string where
  "alnum = lower_az @ upper_AZ @ digits"

definition basic_dns_label_regex :: regex where
  "basic_dns_label_regex = seqs [Cls alnum, Star (Cls (alnum @ ''-'')), Cls alnum]"

definition dns_chars :: string where
  "dns_chars = alnum @ ''-.''"

definition non_dns_regex :: regex where
  "non_dns_regex = NCls dns_chars"

definition wrapped_basic_dns_label_regexes :: "regex list" where
  "wrapped_basic_dns_label_regexes =
     [basic_dns_label_regex,
      seqs [plus (Cls ''(''), basic_dns_label_regex, plus (Cls '')'')],
      seqs [plus (Cls ''[''), basic_dns_label_regex, plus (Cls '']'')]]"

definition dns_label_regex :: regex where
  "dns_label_regex = alts wrapped_basic_dns_label_regexes"

definition dot_regex :: regex where
  "dot_regex = seqs [Star (Cls ''([''), str ''dot'', Star (Cls '')]'')]"

text \<open>
  The separators are joined with \<^verbatim>\<open>|\<close> between a leading and a trailing \<^verbatim>\<open>,*\<close> and only
  then wrapped in a group, so the leading \<^verbatim>\<open>,*\<close> belongs to the first alternative and the
  trailing one to the last.
\<close>

definition dns_separator_regexes :: "regex list" where
  "dns_separator_regexes =
     [seqs [Star ws, plus (Cls ''.''), Star ws],
      seqs [plus (Cls (''.'' @ whitespace)), dot_regex, plus (Cls (''.'' @ whitespace))],
      seqs [plus (Cls ''(''), plus (Alt (Cls ''.'') dot_regex), plus (Cls '')'')],
      seqs [plus (Cls ''[''), plus (Cls ''.''), plus (Cls '']'')],
      seqs [plus (Cls ''{''), plus (Cls ''.''), plus (Cls ''}'')],
      seqs [plus ws, Ahead com_synonyms_regex]]"

definition dns_separator_regex :: regex where
  "dns_separator_regex =
     alts (Seq (Star (Cls '','')) (hd dns_separator_regexes) #
           butlast (tl dns_separator_regexes) @
           [Seq (last dns_separator_regexes) (Star (Cls '',''))])"

text \<open>The group of \<open>dns_re\<close> is the second group of \<open>email_regex\<close>.\<close>

definition dns_re :: regex where
  "dns_re =
     Seq full_at_regex
       (Grp 2 (Seq dns_label_regex (Star (Seq dns_separator_regex dns_label_regex))))"

definition lower_digits :: string where
  "lower_digits = lower_az @ digits"

definition full_username_regex :: regex where
  "full_username_regex =
     Seq (plus (Cls lower_digits))
       (Star (Seq (Cls (''-.!#$%&'' @ [CHR 0x27] @ ''*+/?^_'' @ [CHR 0x60] @ ''{|}~''))
                (plus (Cls lower_digits))))"

definition basic_username_regex :: regex where
  "basic_username_regex =
     seqs [plus (Cls lower_digits),
           Star (Seq (Alt (Cls ''-+_.'') (seqs [opt (Cls ''(''), str ''dot'', opt (Cls '')'')]))
                   (plus (Cls lower_digits))),
           Star ws]"

definition strict_username_regex :: regex where
  "strict_username_regex = Seq full_username_regex (Ahead (str ''@''))"

definition username_regex :: regex where
  "username_regex = Grp 1 (Alt basic_username_regex strict_username_regex)"

definition email_regex :: regex where
  "email_regex = Seq username_regex dns_re"


subsection \<open>Python's string methods\<close>

text \<open>\<open>str.strip()\<close> removes the whitespace at both ends.\<close>

definition strip :: "string \<Rightarrow> string" where
  "strip s =
     rev (dropWhile (\<lambda>c. c \<in> set whitespace) (rev (dropWhile (\<lambda>c. c \<in> set whitespace) s)))"

text \<open>\<open>str.lower()\<close> on a byte string turns the letters A to Z into a to z.\<close>

definition lower_char :: "char \<Rightarrow> char" where
  "lower_char c = (case map_of (zip upper_AZ lower_az) c of None \<Rightarrow> c | Some l \<Rightarrow> l)"

definition lower :: "string \<Rightarrow> string" where
  "lower s = map lower_char s"

text \<open>\<open>s.replace(old, new)\<close> for a one-character \<open>old\<close>.\<close>

definition replace_char :: "char \<Rightarrow> string \<Rightarrow> string \<Rightarrow> string" where
  "replace_char old new s = concat (map (\<lambda>c. if c = old then new else [c]) s)"

text \<open>\<open>s.find(t) >= 0\<close>: \<open>t\<close> occurs in \<open>s\<close>.\<close>

primrec contains :: "string \<Rightarrow> string \<Rightarrow> bool" where
  "contains [] t = (t = [])"
| "contains (c # cs) t = (take (length t) (c # cs) = t \<or> contains cs t)"

primrec join :: "string \<Rightarrow> string list \<Rightarrow> string" where
  "join sep [] = []"
| "join sep (x # xs) = (if xs = [] then x else x @ sep @ join sep xs)"

subsection \<open>The methods\<close>

datatype error = Exception string | TypeError | ValueError

record EE =
  output_format :: string

definition EE_OUTPUT_FORMAT_LIST :: string where
  "EE_OUTPUT_FORMAT_LIST = ''list''"

definition EE_OUTPUT_FORMAT_OBFUSCATION :: string where
  "EE_OUTPUT_FORMAT_OBFUSCATION = ''obfuscation''"

definition set_output_format :: "EE \<Rightarrow> string \<Rightarrow> error + EE" where
  "set_output_format self fmt =
     (if fmt \<notin> set [EE_OUTPUT_FORMAT_LIST, EE_OUTPUT_FORMAT_OBFUSCATION]
      then Inl (Exception (''output_format should be '' @ [CHR 0x22] @ ''list'' @ [CHR 0x22] @
             '' or '' @ [CHR 0x22] @ ''obfuscation'' @ [CHR 0x22]))
      else Inr (self\<lparr>output_format := fmt\<rparr>))"

text \<open>
  The constructor builds the patterns above, which cannot fail, and ends with
  \<open>set_output_format\<close>; until then the instance has no \<open>output_format\<close>, for which the
  empty string stands.
\<close>

definition EE_init :: "string \<Rightarrow> error + EE" where
  "EE_init fmt = set_output_format \<lparr>output_format = []\<rparr> fmt"

definition clean_domain :: "string \<Rightarrow> string" where
  "clean_domain regex_match =
     (let result = regex_match;
          result = re_sub gmail_synonyms_regex ''gmail'' result;
          result = re_sub (plus ws) ''.'' result;
          result = re_sub dot_regex ''.'' result;
          result = re_sub non_dns_regex [] result;
          result = re_sub (plus (Cls ''.'')) ''.'' result;
          result = strip result;
          result = (if re_match (Seq common_domains_regex Eol) result
                    then result @ ''.com'' else result)
      in if \<not> contains result ''.'' then []
         else if contains result ''gmail'' \<and> result \<noteq> ''gmail.com'' then []
         else result)"

text \<open>\<open>clean_username\<close> returns \<open>None\<close> for a rejected name.\<close>

definition user_dot_regex :: regex where
  "user_dot_regex = seqs [opt (Cls ''(''), str ''dot'', opt (Cls '')'')]"

definition clean_username :: "string \<Rightarrow> string option" where
  "clean_username string =
     (let username = strip string;
          username = re_sub user_dot_regex ''.'' username
      in if length username < 4 then None else Some username)"

text \<open>
  \<open>clean\<close> collects the addresses in a \<open>Set\<close> and returns \<open>list(clean_results)\<close>. The order
  in which a \<open>Set\<close> is listed is not specified by Python; the model lists the addresses
  in the order of their first insertion. \<open>domain and username\<close> is Python's truth test:
  neither is empty and the name is not \<open>None\<close>.
\<close>

definition set_add :: "string \<Rightarrow> string list \<Rightarrow> string list" where
  "set_add x xs = (if x \<in> set xs then xs else xs @ [x])"

definition truthy :: "string \<Rightarrow> string option \<Rightarrow> bool" where
  "truthy domain username = (domain \<noteq> [] \<and> username \<noteq> None \<and> username \<noteq> Some [])"

fun clean_loop :: "(string \<times> string) list \<Rightarrow> string list \<Rightarrow> string list" where
  "clean_loop [] clean_results = clean_results"
| "clean_loop ((u, d) # matches) clean_results =
     (let domain = clean_domain d;
          username = clean_username u
      in if truthy domain username
         then clean_loop matches (set_add (the username @ ''@'' @ domain) clean_results)
         else clean_loop matches clean_results)"

definition clean :: "(string \<times> string) list \<Rightarrow> string list" where
  "clean matches = clean_loop matches []"

text \<open>
  \<open>extract_domain\<close> matches with the flag \<^verbatim>\<open>re.I\<close>: a character of the text matches a
  literal or a class when its lower-case form is the lower-case form of the literal or of
  a member of the class. \<open>ignore_case\<close> closes every class of a pattern under the change of
  case, which gives the same matches. \<open>dns_re\<close> has one group, whose texts \<open>re.findall\<close>
  returns; it carries the number 2 here, as in \<open>email_regex\<close>.
\<close>

definition upper_char :: "char \<Rightarrow> char" where
  "upper_char c = (case map_of (zip lower_az upper_AZ) c of None \<Rightarrow> c | Some u \<Rightarrow> u)"

definition either_case :: "string \<Rightarrow> string" where
  "either_case cs = map lower_char cs @ map upper_char (map lower_char cs)"

primrec ignore_case :: "regex \<Rightarrow> regex" where
  "ignore_case Eps = Eps"
| "ignore_case (Cls cs) = Cls (either_case cs)"
| "ignore_case (NCls cs) = NCls (either_case cs)"
| "ignore_case (Seq p q) = Seq (ignore_case p) (ignore_case q)"
| "ignore_case (Alt p q) = Alt (ignore_case p) (ignore_case q)"
| "ignore_case (Star p) = Star (ignore_case p)"
| "ignore_case (Ahead p) = Ahead (ignore_case p)"
| "ignore_case (Behind n p) = Behind n (ignore_case p)"
| "ignore_case (Grp k p) = Grp k (ignore_case p)"
| "ignore_case WordB = WordB"
| "ignore_case Eol = Eol"

definition extract_domain :: "string \<Rightarrow> string list" where
  "extract_domain string =
     (let matches = map snd (re_findall (ignore_case dns_re) string)
      in map clean_domain matches)"


text \<open>
  A record of the obfuscation format is a Python dict from strings to strings, kept as an
  association list; \<open>email[k] = v\<close> is \<open>AList.update k v\<close>. \<open>unclean.remove(tuc)\<close> removes
  the first entry equal to \<open>tuc\<close> and raises \<open>ValueError\<close> when there is none.
\<close>

type_synonym dict = "(string \<times> string) list"

definition list_remove :: "'a \<Rightarrow> 'a list \<Rightarrow> error + 'a list" where
  "list_remove x xs = (if x \<in> set xs then Inr (remove1 x xs) else Inl ValueError)"

definition raw_string :: "string \<times> string \<Rightarrow> string" where
  "raw_string tuc = strip (fst tuc) @ ''@'' @ strip (snd tuc)"

text \<open>
  The inner loop of \<open>normalize\<close> over \<open>tmp_unclean\<close>, for one address \<open>co\<close>: it changes
  the record \<open>email\<close> and the list \<open>unclean\<close>.
\<close>

fun tuc_loop :: "string \<Rightarrow> (string \<times> string) list \<Rightarrow> dict \<Rightarrow> (string \<times> string) list \<Rightarrow>
    error + dict \<times> (string \<times> string) list" where
  "tuc_loop co [] email unclean = Inr (email, unclean)"
| "tuc_loop co (tuc # tmp_unclean) email unclean =
     (if raw_string tuc = co then
        (case list_remove tuc unclean of
           Inl e \<Rightarrow> Inl e
         | Inr unclean' \<Rightarrow> tuc_loop co tmp_unclean email unclean')
      else
        (let domain = clean_domain (snd tuc);
             username = clean_username (fst tuc)
         in if truthy domain username \<and> the username @ ''@'' @ domain = co
            then tuc_loop co tmp_unclean (AList.update ''obfuscation'' ''True'' email) unclean
            else tuc_loop co tmp_unclean email unclean))"

text \<open>The body of the outer loop: the record for \<open>co\<close> and the list \<open>unclean\<close> after it.\<close>

definition classify :: "string \<Rightarrow> (string \<times> string) list \<Rightarrow>
    error + dict \<times> (string \<times> string) list" where
  "classify co unclean =
     (let email = AList.update ''email'' co [];
          tmp_unclean = unclean
      in if co \<in> set (map raw_string (filter (\<lambda>(username, domain). domain \<noteq> [] \<and> username \<noteq> [])
                                          tmp_unclean))
         then (case tuc_loop co tmp_unclean email unclean of
                 Inl e \<Rightarrow> Inl e
               | Inr (email, unclean') \<Rightarrow>
                   Inr (if map_of email ''obfuscation'' = None
                        then AList.update ''obfuscation'' ''False'' email else email,
                        unclean'))
         else Inr (AList.update ''obfuscation'' ''True'' email, unclean))"

fun normalize_loop :: "string list \<Rightarrow> (string \<times> string) list \<Rightarrow> dict list \<Rightarrow> error + dict list" where
  "normalize_loop [] unclean output = Inr output"
| "normalize_loop (co # rest) unclean output =
     (case classify co unclean of
        Inl e \<Rightarrow> Inl e
      | Inr (email, unclean') \<Rightarrow> normalize_loop rest unclean' (output @ [email]))"

datatype pyval = Strings "string list" | Dicts "dict list" | Joined string

text \<open>\<open>normalize\<close> reads the format of the instance, not its third argument.\<close>

definition normalize :: "EE \<Rightarrow> string list \<Rightarrow> (string \<times> string) list \<Rightarrow> string \<Rightarrow> error + pyval" where
  "normalize self cleaned unclean fmt =
     (if output_format self = EE_OUTPUT_FORMAT_LIST then Inr (Strings cleaned)
      else (case normalize_loop cleaned unclean [] of
              Inl e \<Rightarrow> Inl e
            | Inr output \<Rightarrow> Inr (Dicts output)))"

text \<open>\<open>",".join(output)\<close> raises \<open>TypeError\<close> at the first item that is not a string.\<close>

definition comma_join :: "pyval \<Rightarrow> error + pyval" where
  "comma_join output =
     (case output of
        Strings xs \<Rightarrow> Inr (Joined (join '','' xs))
      | Dicts ds \<Rightarrow> (if ds = [] then Inr (Joined []) else Inl TypeError)
      | Joined s \<Rightarrow> Inr (Joined (join '','' (map (\<lambda>c. [c]) s))))"

definition prepare :: "string \<Rightarrow> string" where
  "prepare string =
     (let line = replace_char (CHR 0x0D) [] (replace_char (CHR 0x0A) '' '' (lower string));
          line = re_sub (plus (Cls ''*?'')) '' '' line;
          line = re_sub (str [CHR 0x5C, CHR ''n'']) '' '' line;
          line = re_sub (seqs [plus ws, str ''g'', plus ws, str ''mail'', plus ws]) '' gmail '' line
      in line)"

definition extract_email :: "EE \<Rightarrow> string \<Rightarrow> bool \<Rightarrow> error + pyval" where
  "extract_email self string return_as_string =
     (let line = prepare string;
          matches = re_findall email_regex line;
          clean_results = clean matches
      in case normalize self clean_results matches (output_format self) of
           Inl e \<Rightarrow> Inl e
         | Inr output \<Rightarrow> if return_as_string then comma_join output else Inr output)"


text \<open>
  The call \<open>EE(_output_format=fmt).extract_email(string, return_as_string)\<close> of the main
  program: construction, then extraction.
\<close>

definition EE_extract :: "string \<Rightarrow> string \<Rightarrow> bool \<Rightarrow> error + pyval" where
  "EE_extract fmt string return_as_string =
     (case EE_init fmt of
        Inl e \<Rightarrow> Inl e
      | Inr self \<Rightarrow> extract_email self string return_as_string)"

subsection \<open>The username normalizer in the words of the specification\<close>

text \<open>
  The specification says that the username normalizer replaces spelled-out dot markers with
  literal dots. Read from left to right, a marker is the word \<open>dot\<close>, with an opening
  parenthesis before it and a closing one behind it when they are there. This function
  follows those words, not the source; it is compared with the source's \<open>re.sub\<close> below.
\<close>

fun replace_dot_markers :: "string \<Rightarrow> string" where
  "replace_dot_markers [] = []"
| "replace_dot_markers (c # cs) =
     (if prefix ''(dot)'' (c # cs) then CHR ''.'' # replace_dot_markers (drop 4 cs)
      else if prefix ''(dot'' (c # cs) then CHR ''.'' # replace_dot_markers (drop 3 cs)
      else if prefix ''dot)'' (c # cs) then CHR ''.'' # replace_dot_markers (drop 3 cs)
      else if prefix ''dot'' (c # cs) then CHR ''.'' # replace_dot_markers (drop 2 cs)
      else c # replace_dot_markers cs)"

subsection \<open>Where stripping could join the letters of a dot marker\<close>

text \<open>
  \<open>clean_domain\<close> replaces the dot markers before it strips the characters outside the
  DNS set, so stripping could put the letters of the word \<open>dot\<close> together again.
  \<open>scan\<close> goes through a text and fails where a letter \<open>d\<close> or \<open>o\<close> is followed, across
  characters that are stripped (neither DNS characters nor whitespace, which becomes a
  dot before), by a letter \<open>o\<close> or \<open>t\<close>. Its state says whether the last character kept was
  such a letter (\<open>Armed\<close>) and whether stripped characters have come since (\<open>Gapped\<close>).
\<close>

datatype scan_state = Idle | Armed | Gapped

definition gap_char :: "char \<Rightarrow> bool" where
  "gap_char c \<longleftrightarrow> c \<notin> set dns_chars \<and> c \<notin> set whitespace"

fun scan :: "scan_state \<Rightarrow> string \<Rightarrow> scan_state option" where
  "scan q [] = Some q"
| "scan q (c # cs) =
     (if gap_char c then scan (if q = Idle then Idle else Gapped) cs
      else if q = Gapped \<and> c \<in> set ''ot'' then None
      else scan (if c \<in> set ''do'' then Armed else Idle) cs)"

text \<open>
  Texts of stripped characters only; texts after which the scan is \<open>Idle\<close> whatever it
  was before; and the patterns that pass only such texts.
\<close>

definition gaps :: "string \<Rightarrow> bool" where
  "gaps w \<longleftrightarrow> (\<forall>c\<in>set w. gap_char c)"

definition reset :: "string \<Rightarrow> bool" where
  "reset w \<longleftrightarrow> (\<forall>q. scan q w = Some Idle)"

definition soft :: "string \<Rightarrow> bool" where
  "soft w \<longleftrightarrow> gaps w \<or> reset w"

definition soft_re :: "regex \<Rightarrow> bool" where
  "soft_re p \<longleftrightarrow> (\<forall>w\<in>lang p. soft w)"

definition reset_re :: "regex \<Rightarrow> bool" where
  "reset_re p \<longleftrightarrow> (\<forall>w\<in>lang p. reset w)"

section \<open>Properties of the extractor\<close>

subsection \<open>Substrings\<close>

lemma contains_iff: "contains s t \<longleftrightarrow> (\<exists>xs ys. s = xs @ t @ ys)"
proof (induction s)
  case Nil
  then show ?case by auto
next
  case (Cons c cs)
  have pre: "take (length t) (c # cs) = t \<longleftrightarrow> (\<exists>ys. c # cs = t @ ys)"
    by (metis append_eq_conv_conj append_take_drop_id)
  show ?case
  proof
    assume "contains (c # cs) t"
    then consider "take (length t) (c # cs) = t" | "contains cs t" by auto
    then show "\<exists>xs ys. c # cs = xs @ t @ ys"
    proof cases
      case 1
      with pre obtain ys where "c # cs = [] @ t @ ys" by auto
      then show ?thesis by blast
    next
      case 2
      with Cons.IH obtain xs ys where "cs = xs @ t @ ys" by auto
      then have "c # cs = (c # xs) @ t @ ys" by simp
      then show ?thesis by blast
    qed
  next
    assume "\<exists>xs ys. c # cs = xs @ t @ ys"
    then obtain xs ys where e: "c # cs = xs @ t @ ys" by auto
    show "contains (c # cs) t"
    proof (cases xs)
      case Nil
      with e have "\<exists>ys. c # cs = t @ ys" by auto
      with pre have "take (length t) (c # cs) = t" by blast
      then show ?thesis by simp
    next
      case (Cons x xs')
      with e have "cs = xs' @ t @ ys" by simp
      with Cons.IH show ?thesis by auto
    qed
  qed
qed

lemma contains_char: "contains s [c] \<longleftrightarrow> c \<in> set s"
  by (induction s) (auto simp: take_Suc_conv_app_nth split: list.splits)

subsection \<open>The domain normalizer\<close>

text \<open>
  Claim C1. Whatever the raw fragment, \<open>clean_domain\<close> returns the empty string (the
  rejection) or a string with at least one dot; and a result in which \<open>gmail\<close> occurs
  anywhere is exactly \<open>gmail.com\<close>.
\<close>

theorem clean_domain_dot_gmail:
  "clean_domain d = [] \<or>
   (CHR ''.'' \<in> set (clean_domain d) \<and>
    ((\<exists>xs ys. clean_domain d = xs @ ''gmail'' @ ys) \<longrightarrow> clean_domain d = ''gmail.com''))"
  unfolding clean_domain_def Let_def contains_iff [symmetric] contains_char [symmetric]
  by (simp del: contains.simps)

lemma clean_domain_gee_mail: "clean_domain ''gee mail'' = ''gmail.com''"
  by code_simp

theorem clean_domain_dot_gmail_witness:
  "clean_domain ''gee mail'' \<noteq> [] \<and> CHR ''.'' \<in> set (clean_domain ''gee mail'') \<and>
   (\<exists>xs ys. clean_domain ''gee mail'' = xs @ ''gmail'' @ ys) \<and>
   clean_domain ''gee mail'' = ''gmail.com''"
proof -
  have ex: "\<exists>xs ys. clean_domain ''gee mail'' = xs @ ''gmail'' @ ys"
    unfolding clean_domain_gee_mail by (rule exI [of _ "[]"], rule exI [of _ "''.com''"]) simp
  from clean_domain_dot_gmail [of "''gee mail''"] ex show ?thesis
    by (simp add: clean_domain_gee_mail)
qed

subsection \<open>Construction\<close>

text \<open>
  Claim C6. The constructor raises (the source's plain \<open>Exception\<close>) exactly when the
  output format is neither \<open>list\<close> nor \<open>obfuscation\<close>, and with either of the two it
  returns an instance with that format.
\<close>

theorem EE_init_fails_iff:
  "((\<exists>msg. EE_init fmt = Inl (Exception msg)) = (fmt \<notin> {''list'', ''obfuscation''})) \<and>
   ((\<exists>e. EE_init fmt = Inl e) = (fmt \<notin> {''list'', ''obfuscation''})) \<and>
   ((EE_init fmt = Inr \<lparr>output_format = fmt\<rparr>) = (fmt \<in> {''list'', ''obfuscation''}))"
  by (auto simp: EE_init_def set_output_format_def EE_OUTPUT_FORMAT_LIST_def
      EE_OUTPUT_FORMAT_OBFUSCATION_def)

subsection \<open>Extraction on given texts\<close>

text \<open>
  Claim C4. In list mode the text \<open>marycomeaux62(@)gmail(dot)com\<close> gives exactly the
  one address \<open>marycomeaux62@gmail.com\<close>.
\<close>

theorem extract_marycomeaux:
  "EE_extract ''list'' ''marycomeaux62(@)gmail(dot)com'' False =
     Inr (Strings [''marycomeaux62@gmail.com''])"
  by code_simp

text \<open>
  Claim C3, as stated: in list mode the text \<open>SweetAbby90 at gmail\<close> gives
  \<open>sweetabby90@gmail.com\<close>. It does not: the word \<open>at\<close> is an at-marker only in front of
  a provider name that is itself followed by a separator and a spelling of \<open>com\<close>.
\<close>

theorem extract_sweetabby_counterexample:
  "EE_extract ''list'' ''SweetAbby90 at gmail'' False \<noteq> Inr (Strings [''sweetabby90@gmail.com''])"
  by code_simp

text \<open>
  Claim C3, amended. In list mode the text \<open>SweetAbby90 at gmail\<close> gives the empty list.
  With the spelling of \<open>com\<close> after the provider the word \<open>at\<close> is an at-marker, and
  \<open>SweetAbby90 at gmail com\<close> gives \<open>sweetabby90@gmail.com\<close>; and behind an at-marker
  that needs no lookahead the bare provider gets its \<open>.com\<close>: \<open>SweetAbby90@gmail\<close> gives
  \<open>sweetabby90@gmail.com\<close>.
\<close>

theorem extract_sweetabby:
  "EE_extract ''list'' ''SweetAbby90 at gmail'' False = Inr (Strings []) \<and>
   EE_extract ''list'' ''SweetAbby90 at gmail com'' False =
     Inr (Strings [''sweetabby90@gmail.com'']) \<and>
   EE_extract ''list'' ''SweetAbby90@gmail'' False = Inr (Strings [''sweetabby90@gmail.com''])"
  by code_simp

text \<open>
  Claim C7 says that \<open>extract_email\<close> never raises. In the obfuscation format with
  \<open>return_as_string\<close> set, \<open>",".join\<close> is applied to a list of dicts and raises
  \<open>TypeError\<close> as soon as one address is found.
\<close>

theorem extract_joined_obfuscation_raises:
  "EE_extract ''obfuscation'' ''sebasccelis@hotmail.com'' True = Inl TypeError"
  by code_simp


subsection \<open>The result assembler in list mode\<close>

lemma set_add_distinct: "distinct xs \<Longrightarrow> distinct (set_add x xs)"
  by (simp add: set_add_def)

lemma set_set_add: "set (set_add x xs) = insert x (set xs)"
  by (auto simp: set_add_def)

lemma clean_loop_distinct: "distinct acc \<Longrightarrow> distinct (clean_loop xs acc)"
  by (induction xs acc rule: clean_loop.induct) (simp_all add: Let_def set_add_distinct)

lemma clean_loop_set:
  "set (clean_loop xs acc) = set acc \<union>
     {the (clean_username u) @ ''@'' @ clean_domain d | u d.
        (u, d) \<in> set xs \<and> truthy (clean_domain d) (clean_username u)}"
  by (induction xs acc rule: clean_loop.induct) (auto simp: Let_def set_set_add)

lemma EE_extract_list:
  "EE_extract ''list'' s False = Inr (Strings (clean (re_findall email_regex (prepare s))))"
  by (simp add: EE_extract_def EE_init_def set_output_format_def EE_OUTPUT_FORMAT_LIST_def
      EE_OUTPUT_FORMAT_OBFUSCATION_def extract_email_def normalize_def Let_def)

text \<open>
  Claim C9. In list mode the result has no duplicates: it holds every address that some
  raw match normalizes to, once, however many raw matches give it.
\<close>

theorem list_mode_duplicate_free:
  "\<exists>xs. EE_extract ''list'' s False = Inr (Strings xs) \<and> distinct xs \<and>
     set xs = {the (clean_username u) @ ''@'' @ clean_domain d | u d.
        (u, d) \<in> set (re_findall email_regex (prepare s)) \<and>
        truthy (clean_domain d) (clean_username u)}"
  unfolding EE_extract_list
  by (simp add: clean_def clean_loop_distinct clean_loop_set)

subsection \<open>The result assembler in obfuscation mode\<close>

text \<open>
  What the inner loop of \<open>normalize\<close> computes when \<open>unclean\<close> holds the entries of
  \<open>tmp_unclean\<close> that read \<open>co\<close> verbatim: it never raises, it takes exactly those entries
  out of \<open>unclean\<close>, and it sets the mark when another entry normalizes to \<open>co\<close>.
\<close>

lemma filter_none_other: "filter P xs = [] \<Longrightarrow> filter (\<lambda>x. \<not> P x) xs = xs"
  by (induction xs) (auto split: if_splits)


lemma tuc_loop_eq:
  assumes "mset (filter (\<lambda>t. raw_string t = co) tmp) = mset (filter (\<lambda>t. raw_string t = co) unclean)"
  shows "tuc_loop co tmp email unclean =
     Inr (if \<exists>t\<in>set tmp. raw_string t \<noteq> co \<and> clean [t] = [co]
          then AList.update ''obfuscation'' ''True'' email else email,
          filter (\<lambda>t. raw_string t \<noteq> co) unclean)"
  using assms
proof (induction tmp arbitrary: email unclean)
  case Nil
  then have "filter (\<lambda>t. raw_string t = co) unclean = []"
    by (auto simp: filter_empty_conv)
  from filter_none_other [OF this] show ?case by simp
next
  case (Cons tuc tmp)
  let ?P = "\<lambda>t. raw_string t = co"
  show ?case
  proof (cases "raw_string tuc = co")
    case True
    from Cons.prems True have m: "mset (filter ?P unclean) = add_mset tuc (mset (filter ?P tmp))"
      by simp
    then have "tuc \<in># mset (filter ?P unclean)" by simp
    then have mem: "tuc \<in> set unclean" by simp
    have "mset (filter ?P (remove1 tuc unclean)) = mset (remove1 tuc (filter ?P unclean))"
      by (simp only: filter_remove1)
    also have "\<dots> = mset (filter ?P unclean) - {#tuc#}" by (simp only: mset_remove1)
    also have "\<dots> = mset (filter ?P tmp)" by (simp only: m) simp
    finally have "mset (filter ?P tmp) = mset (filter ?P (remove1 tuc unclean))" by simp
    note IH = Cons.IH [OF this, of email]
    have f: "filter (\<lambda>t. raw_string t \<noteq> co) (remove1 tuc unclean) =
             filter (\<lambda>t. raw_string t \<noteq> co) unclean"
      using True by (simp only: filter_remove1) (simp add: remove1_idem)
    have "tuc_loop co (tuc # tmp) email unclean = tuc_loop co tmp email (remove1 tuc unclean)"
      using True mem by (simp add: list_remove_def)
    with IH f True show ?thesis by simp
  next
    case False
    with Cons.prems have "mset (filter ?P tmp) = mset (filter ?P unclean)" by simp
    note IH = Cons.IH [OF this]
    have c: "clean [tuc] = [co] \<longleftrightarrow> truthy (clean_domain (snd tuc)) (clean_username (fst tuc)) \<and>
        the (clean_username (fst tuc)) @ ''@'' @ clean_domain (snd tuc) = co"
      by (cases tuc) (simp add: clean_def Let_def set_add_def)
    show ?thesis
    proof (cases "clean [tuc] = [co]")
      case True
      with c False have "tuc_loop co (tuc # tmp) email unclean =
          tuc_loop co tmp (AList.update ''obfuscation'' ''True'' email) unclean"
        by (simp add: Let_def)
      with IH [of "AList.update ''obfuscation'' ''True'' email"] True False show ?thesis
        by simp
    next
      case nc: False
      with c False have "tuc_loop co (tuc # tmp) email unclean = tuc_loop co tmp email unclean"
        by (auto simp: Let_def)
      with IH [of email] nc False show ?thesis by simp
    qed
  qed
qed


lemma classify_eq:
  "classify co unclean =
     Inr ([(''email'', co), (''obfuscation'',
            if (\<exists>t\<in>set unclean. snd t \<noteq> [] \<and> fst t \<noteq> [] \<and> raw_string t = co) \<and>
               \<not> (\<exists>t\<in>set unclean. raw_string t \<noteq> co \<and> clean [t] = [co])
            then ''False'' else ''True'')],
          if \<exists>t\<in>set unclean. snd t \<noteq> [] \<and> fst t \<noteq> [] \<and> raw_string t = co
          then filter (\<lambda>t. raw_string t \<noteq> co) unclean else unclean)"
proof -
  let ?V = "\<exists>t\<in>set unclean. snd t \<noteq> [] \<and> fst t \<noteq> [] \<and> raw_string t = co"
  have t: "co \<in> set (map raw_string (filter (\<lambda>(username, domain). domain \<noteq> [] \<and> username \<noteq> []) unclean))
     \<longleftrightarrow> ?V"
    by (force simp: image_iff)
  have l: "tuc_loop co unclean [(''email'', co)] unclean =
     Inr (if \<exists>t\<in>set unclean. raw_string t \<noteq> co \<and> clean [t] = [co]
          then [(''email'', co), (''obfuscation'', ''True'')] else [(''email'', co)],
          filter (\<lambda>t. raw_string t \<noteq> co) unclean)"
    by (simp add: tuc_loop_eq)
  show ?thesis
  proof (cases ?V)
    case True
    then show ?thesis
      unfolding classify_def Let_def t by (simp add: l)
  next
    case False
    then have "classify co unclean = Inr (AList.update ''obfuscation'' ''True'' [(''email'', co)], unclean)"
      unfolding classify_def Let_def t by (simp only: if_False AList.update.simps)
    with False show ?thesis by (simp only: if_False simp_thms) simp
  qed
qed

lemma normalize_loop_eq:
  "\<exists>ds. normalize_loop cs unclean out = Inr (out @ ds) \<and> map (\<lambda>d. map_of d ''email'') ds = map Some cs \<and>
     (\<forall>d\<in>set ds. \<exists>co v. d = [(''email'', co), (''obfuscation'', v)] \<and> (v = ''True'' \<or> v = ''False''))"
proof (induction cs arbitrary: unclean out)
  case Nil
  then show ?case by simp
next
  case (Cons co cs)
  obtain d u where c: "classify co unclean = Inr (d, u)"
    and d: "\<exists>v. d = [(''email'', co), (''obfuscation'', v)] \<and> (v = ''True'' \<or> v = ''False'')"
    using classify_eq [of co unclean] by auto
  from Cons.IH [of u "out @ [d]"] obtain ds where
    "normalize_loop cs u (out @ [d]) = Inr ((out @ [d]) @ ds)"
    "map (\<lambda>d. map_of d ''email'') ds = map Some cs"
    "\<forall>d\<in>set ds. \<exists>co v. d = [(''email'', co), (''obfuscation'', v)] \<and> (v = ''True'' \<or> v = ''False'')"
    by blast
  with c d show ?case
    by (intro exI [of _ "d # ds"]) auto
qed
lemma EE_extract_obfuscation:
  "EE_extract ''obfuscation'' s False =
     (case normalize_loop (clean (re_findall email_regex (prepare s)))
             (re_findall email_regex (prepare s)) [] of
        Inl e \<Rightarrow> Inl e
      | Inr out \<Rightarrow> Inr (Dicts out))"
  by (simp add: EE_extract_def EE_init_def set_output_format_def EE_OUTPUT_FORMAT_LIST_def
      EE_OUTPUT_FORMAT_OBFUSCATION_def extract_email_def normalize_def Let_def
      split: sum.splits)

lemma extract_hotmail:
  "EE_extract ''obfuscation'' ''HOTMAIL:  sebasccelis@hotmail.com'' False =
     Inr (Dicts [[(''email'', ''sebasccelis@hotmail.com''), (''obfuscation'', ''False'')]])"
  by code_simp

text \<open>
  When \<open>extract_email\<close> raises: only in the obfuscation format, with \<open>return_as_string\<close>
  set and at least one address found, and then it is the \<open>TypeError\<close> of \<open>",".join\<close>.
  In particular \<open>unclean.remove\<close> always finds its entry.
\<close>

lemma extract_email_raises_iff:
  "(extract_email self s flag = Inl e) =
     (e = TypeError \<and> flag \<and> output_format self \<noteq> EE_OUTPUT_FORMAT_LIST \<and>
      clean (re_findall email_regex (prepare s)) \<noteq> [])"
proof -
  let ?m = "re_findall email_regex (prepare s)"
  from normalize_loop_eq [of "clean ?m" ?m "[]"] obtain ds where
    n: "normalize_loop (clean ?m) ?m [] = Inr ds" and
    "map (\<lambda>d. map_of d ''email'') ds = map Some (clean ?m)"
    by auto
  then have "length ds = length (clean ?m)" by (metis length_map)
  then have e: "ds = [] \<longleftrightarrow> clean ?m = []" by auto
  show ?thesis
    by (auto simp: extract_email_def normalize_def comma_join_def Let_def n e)
qed

text \<open>
  Claim C10. In obfuscation mode every record has the two keys \<open>email\<close> and
  \<open>obfuscation\<close> (there is no key \<open>obfuscated\<close>), and the value under \<open>obfuscation\<close> is
  one of the strings \<open>True\<close> and \<open>False\<close>.
\<close>

theorem obfuscation_records:
  "\<exists>ds. EE_extract ''obfuscation'' s False = Inr (Dicts ds) \<and>
     (\<forall>d\<in>set ds. map_of d ''obfuscation'' \<in> {Some ''True'', Some ''False''} \<and>
        map_of d ''obfuscated'' = None \<and> map fst d = [''email'', ''obfuscation''])"
proof -
  let ?m = "re_findall email_regex (prepare s)"
  from normalize_loop_eq [of "clean ?m" ?m "[]"] obtain ds where
    n: "normalize_loop (clean ?m) ?m [] = Inr ds" and
    sh: "\<forall>d\<in>set ds. \<exists>co v. d = [(''email'', co), (''obfuscation'', v)] \<and> (v = ''True'' \<or> v = ''False'')"
    by auto
  have "EE_extract ''obfuscation'' s False = Inr (Dicts ds)"
    by (simp add: EE_extract_obfuscation n)
  moreover have "map_of d ''obfuscation'' \<in> {Some ''True'', Some ''False''} \<and>
        map_of d ''obfuscated'' = None \<and> map fst d = [''email'', ''obfuscation'']"
    if "d \<in> set ds" for d
  proof -
    from sh that obtain co v where "d = [(''email'', co), (''obfuscation'', v)]"
      and "v = ''True'' \<or> v = ''False''" by blast
    then show ?thesis by auto
  qed
  ultimately show ?thesis by blast
qed

theorem obfuscation_records_witness:
  "EE_extract ''obfuscation'' ''HOTMAIL:  sebasccelis@hotmail.com'' False =
     Inr (Dicts [[(''email'', ''sebasccelis@hotmail.com''), (''obfuscation'', ''False'')]]) \<and>
   map_of [(''email'', ''sebasccelis@hotmail.com''), (''obfuscation'', ''False'')] ''obfuscation''
     = Some ''False'' \<and>
   map_of [(''email'', ''sebasccelis@hotmail.com''), (''obfuscation'', ''False'')] ''obfuscated''
     = None"
proof -
  from obfuscation_records [of "''HOTMAIL:  sebasccelis@hotmail.com''"] obtain ds where
    e: "EE_extract ''obfuscation'' ''HOTMAIL:  sebasccelis@hotmail.com'' False = Inr (Dicts ds)"
    and a: "\<forall>d\<in>set ds. map_of d ''obfuscation'' \<in> {Some ''True'', Some ''False''} \<and>
        map_of d ''obfuscated'' = None \<and> map fst d = [''email'', ''obfuscation'']"
    by blast
  from e have ds: "ds = [[(''email'', ''sebasccelis@hotmail.com''), (''obfuscation'', ''False'')]]"
    by (simp add: extract_hotmail)
  from a ds have "map_of [(''email'', ''sebasccelis@hotmail.com''), (''obfuscation'', ''False'')]
      ''obfuscated'' = None"
    by simp
  with e ds show ?thesis by simp
qed

text \<open>
  Claim C5, as stated: an address is marked not obfuscated exactly when some raw match
  reads it verbatim. In the text below the first raw match reads \<open>abcd@ab.com\<close>
  verbatim, and the address is marked obfuscated all the same, because the second raw
  match normalizes to it too.
\<close>

theorem not_obfuscated_iff_counterexample:
  "re_findall email_regex (prepare ''abcd@ab.com abcd@ab(dot)com'') =
     [(''abcd'', ''ab.com''), (''abcd'', ''ab(dot)com'')] \<and>
   raw_string (''abcd'', ''ab.com'') = ''abcd@ab.com'' \<and>
   EE_extract ''obfuscation'' ''abcd@ab.com abcd@ab(dot)com'' False =
     Inr (Dicts [[(''email'', ''abcd@ab.com''), (''obfuscation'', ''True'')]])"
  by code_simp

text \<open>
  Claim C5, amended. For each address \<open>co\<close> of the deduplicated list in turn, with
  \<open>unclean\<close> the raw matches not yet consumed: \<open>co\<close> is marked not obfuscated exactly
  when some raw match with both fragments non-empty reads \<open>co\<close> verbatim (stripped name,
  \<open>@\<close>, stripped domain) and no raw match that reads otherwise normalizes to \<open>co\<close>; it is
  marked obfuscated otherwise. When some raw match reads \<open>co\<close> verbatim, the raw matches
  that do so are consumed and the others are kept, so a raw match is consumed by no
  address but the one it reads. The text \<open>HOTMAIL:  sebasccelis@hotmail.com\<close> gives one
  record, for \<open>sebasccelis@hotmail.com\<close>, marked not obfuscated.
\<close>

theorem classify_not_obfuscated:
  "(\<exists>email unclean'.
      classify co unclean = Inr (email, unclean') \<and>
      normalize_loop (co # cs) unclean out = normalize_loop cs unclean' (out @ [email]) \<and>
      map_of email ''email'' = Some co \<and>
      (map_of email ''obfuscation'' = Some ''False'') =
        ((\<exists>t\<in>set unclean. snd t \<noteq> [] \<and> fst t \<noteq> [] \<and> raw_string t = co) \<and>
         \<not> (\<exists>t\<in>set unclean. raw_string t \<noteq> co \<and> clean [t] = [co])) \<and>
      (map_of email ''obfuscation'' = Some ''True'') =
        (\<not> ((\<exists>t\<in>set unclean. snd t \<noteq> [] \<and> fst t \<noteq> [] \<and> raw_string t = co) \<and>
         \<not> (\<exists>t\<in>set unclean. raw_string t \<noteq> co \<and> clean [t] = [co]))) \<and>
      unclean' = (if \<exists>t\<in>set unclean. snd t \<noteq> [] \<and> fst t \<noteq> [] \<and> raw_string t = co
                  then filter (\<lambda>t. raw_string t \<noteq> co) unclean else unclean) \<and>
      (\<forall>t\<in>set unclean. t \<notin> set unclean' \<longrightarrow> raw_string t = co)) \<and>
   EE_extract ''obfuscation'' ''HOTMAIL:  sebasccelis@hotmail.com'' False =
     Inr (Dicts [[(''email'', ''sebasccelis@hotmail.com''), (''obfuscation'', ''False'')]])"
proof -
  let ?V = "\<exists>t\<in>set unclean. snd t \<noteq> [] \<and> fst t \<noteq> [] \<and> raw_string t = co"
  let ?O = "\<exists>t\<in>set unclean. raw_string t \<noteq> co \<and> clean [t] = [co]"
  let ?email = "[(''email'', co), (''obfuscation'', if ?V \<and> \<not> ?O then ''False'' else ''True'')]"
  let ?u = "if ?V then filter (\<lambda>t. raw_string t \<noteq> co) unclean else unclean"
  have c: "classify co unclean = Inr (?email, ?u)" by (rule classify_eq)
  then have n: "normalize_loop (co # cs) unclean out = normalize_loop cs ?u (out @ [?email])"
    by simp
  have m: "(map_of ?email ''obfuscation'' = Some ''False'') = (?V \<and> \<not> ?O)"
    "(map_of ?email ''obfuscation'' = Some ''True'') = (\<not> (?V \<and> \<not> ?O))"
    "map_of ?email ''email'' = Some co"
    by simp_all
  have r: "\<forall>t\<in>set unclean. t \<notin> set ?u \<longrightarrow> raw_string t = co"
    by auto
  from c n m r extract_hotmail show ?thesis by blast
qed

lemma classify_abcd:
  "classify ''abcd@ab.com'' [(''abcd'', ''ab.com''), (''abcd'', ''ab(dot)com'')] =
     Inr ([(''email'', ''abcd@ab.com''), (''obfuscation'', ''True'')], [(''abcd'', ''ab(dot)com'')])"
  by code_simp

theorem classify_not_obfuscated_witness:
  "classify ''abcd@ab.com'' [(''abcd'', ''ab.com''), (''abcd'', ''ab(dot)com'')] =
     Inr ([(''email'', ''abcd@ab.com''), (''obfuscation'', ''True'')], [(''abcd'', ''ab(dot)com'')]) \<and>
   (\<exists>t\<in>set [(''abcd'', ''ab.com''), (''abcd'', ''ab(dot)com'')].
      raw_string t \<noteq> ''abcd@ab.com'' \<and> clean [t] = [''abcd@ab.com'']) \<and>
   raw_string (''abcd'', ''ab.com'') = ''abcd@ab.com''"
proof -
  let ?u = "[(''abcd'', ''ab.com''), (''abcd'', ''ab(dot)com'')]"
  from classify_not_obfuscated [of "''abcd@ab.com''" ?u "[]" "[]"]
  obtain email unclean' where c: "classify ''abcd@ab.com'' ?u = Inr (email, unclean')"
    and t: "(map_of email ''obfuscation'' = Some ''True'') =
        (\<not> ((\<exists>t\<in>set ?u. snd t \<noteq> [] \<and> fst t \<noteq> [] \<and> raw_string t = ''abcd@ab.com'') \<and>
         \<not> (\<exists>t\<in>set ?u. raw_string t \<noteq> ''abcd@ab.com'' \<and> clean [t] = [''abcd@ab.com''])))"
    and r: "\<forall>t\<in>set ?u. t \<notin> set unclean' \<longrightarrow> raw_string t = ''abcd@ab.com''"
    by blast
  from c have e: "email = [(''email'', ''abcd@ab.com''), (''obfuscation'', ''True'')]"
    and u: "unclean' = [(''abcd'', ''ab(dot)com'')]"
    by (simp_all add: classify_abcd)
  from r u have raw: "raw_string (''abcd'', ''ab.com'') = ''abcd@ab.com''" by simp
  from t e raw have "\<exists>t\<in>set ?u. raw_string t \<noteq> ''abcd@ab.com'' \<and> clean [t] = [''abcd@ab.com'']"
    by simp
  with raw classify_abcd show ?thesis by blast
qed


subsection \<open>\<open>re.sub\<close> with a consuming pattern\<close>

text \<open>
  With a consuming pattern \<open>re.sub\<close> goes through the text from left to right: where the
  pattern matches, the replacement is written and the scan goes on behind the match;
  elsewhere one character is copied.
\<close>

lemma consuming_ms:
  "consuming p \<Longrightarrow> (b', r', g') \<in> set (ms p (b, r, g)) \<Longrightarrow> length b < length b'"
proof (induction p arbitrary: b r g b' r' g')
  case (Seq p q)
  from Seq.prems(2) obtain b1 r1 g1 where 1: "(b1, r1, g1) \<in> set (ms p (b, r, g))"
    and 2: "(b', r', g') \<in> set (ms q (b1, r1, g1))"
    by auto
  from Seq.prems(1) have "consuming p \<or> consuming q" by simp
  then show ?case
  proof
    assume "consuming p"
    from Seq.IH(1) [OF this 1] ms_len [OF 2] show ?thesis by linarith
  next
    assume "consuming q"
    from Seq.IH(2) [OF this 2] ms_len [OF 1] show ?thesis by linarith
  qed
next
  case (Grp k p)
  from Grp.prems obtain g1 where "(b', r', g1) \<in> set (ms p (b, r, g))"
    by auto
  with Grp show ?case by auto
qed (auto split: list.splits if_splits)

lemma search_split:
  "search p b r = Some (bm, m) \<Longrightarrow>
     \<exists>x y. r = x @ y \<and> bm = rev x @ b \<and> m \<in> set (ms p (bm, y, []))"
proof (induction r arbitrary: b)
  case Nil
  then have "bm = b" and "m \<in> set (ms p (b, [], []))"
    by (auto split: list.splits)
  then show ?case by simp
next
  case (Cons c cs)
  show ?case
  proof (cases "ms p (b, c # cs, [])")
    case Nil
    with Cons.prems have "search p (c # b) cs = Some (bm, m)" by simp
    from Cons.IH [OF this] obtain x y where "cs = x @ y" "bm = rev x @ c # b"
      "m \<in> set (ms p (bm, y, []))" by blast
    then have "c # cs = (c # x) @ y \<and> bm = rev (c # x) @ b \<and> m \<in> set (ms p (bm, y, []))"
      by simp
    then show ?thesis by blast
  next
    case (Cons m' ms')
    with Cons.prems have "m = m'" and "bm = b" by simp_all
    with Cons have "c # cs = [] @ c # cs \<and> bm = rev [] @ b \<and> m \<in> set (ms p (bm, c # cs, []))"
      by simp
    then show ?thesis by blast
  qed
qed

lemma sub_loop_found:
  assumes c: "consuming p" and s: "search p b r = Some (bm, be, re, g)"
  shows "\<exists>x. length re < length r \<and>
     (\<forall>gap n. sub_loop p repl b r gap n = gap @ x @ repl @ sub_loop p repl be re [] (Suc n))"
proof -
  from search_split [OF s] obtain x y where r: "r = x @ y" and bm: "bm = rev x @ b"
    and m: "(be, re, g) \<in> set (ms p (bm, y, []))" by blast
  from consuming_ms [OF c m] have ne: "length be \<noteq> length bm" by simp
  from search_len [OF s] ne have "length re < length r" by simp
  moreover have "sub_loop p repl b r gap n = gap @ x @ repl @ sub_loop p repl be re [] (Suc n)"
    for gap n
    using s ne bm by (subst sub_loop.simps) simp
  ultimately show ?thesis by blast
qed

lemma sub_loop_gap:
  "consuming p \<Longrightarrow> sub_loop p repl b r gap n = gap @ sub_loop p repl b r [] 0"
proof (induction "length r" arbitrary: b r gap n rule: less_induct)
  case less
  show ?case
  proof (cases "search p b r")
    case None
    then show ?thesis
      by (subst sub_loop.simps, subst (2) sub_loop.simps) simp
  next
    case (Some a)
    obtain bm be re g where a: "a = (bm, be, re, g)" by (cases a) auto
    from sub_loop_found [OF less.prems Some [unfolded a], of repl] obtain x where
      l: "length re < length r" and
      u: "\<And>gap n. sub_loop p repl b r gap n = gap @ x @ repl @ sub_loop p repl be re [] (Suc n)"
      by blast
    have "sub_loop p repl be re [] (Suc n) = [] @ sub_loop p repl be re [] 0"
      and "sub_loop p repl be re [] (Suc 0) = [] @ sub_loop p repl be re [] 0"
      by (rule less.hyps [OF l less.prems])+
    then show ?thesis by (simp add: u)
  qed
qed

lemma ms_consuming_Nil: "consuming p \<Longrightarrow> ms p (b, [], g) = []"
proof (rule ccontr)
  assume c: "consuming p" and "ms p (b, [], g) \<noteq> []"
  then obtain m rest where e: "ms p (b, [], g) = m # rest" by (cases "ms p (b, [], g)") auto
  obtain b' r' g' where "m = (b', r', g')" by (cases m) auto
  with e have m: "(b', r', g') \<in> set (ms p (b, [], g))" by simp
  from consuming_ms [OF c m] ms_len [OF m] show False by simp
qed

lemma sub_loop_Nil: "consuming p \<Longrightarrow> sub_loop p repl b [] [] 0 = []"
  by (subst sub_loop.simps) (simp add: ms_consuming_Nil)

lemma sub_loop_skip:
  assumes c: "consuming p" and n: "ms p (b, c # cs, []) = []"
  shows "sub_loop p repl b (c # cs) [] 0 = c # sub_loop p repl (c # b) cs [] 0"
proof -
  have "sub_loop p repl b (c # cs) [] 0 = sub_loop p repl (c # b) cs [c] 0"
  proof (cases "search p (c # b) cs")
    case None
    with n show ?thesis
      by (subst sub_loop.simps, subst (2) sub_loop.simps) simp
  next
    case (Some a)
    obtain bm be re g where a: "a = (bm, be, re, g)" by (cases a) auto
    from n Some a have s: "search p b (c # cs) = Some (bm, be, re, g)" by simp
    from search_split [OF Some [unfolded a]] obtain x y where
      bm: "bm = rev x @ c # b" and m: "(be, re, g) \<in> set (ms p (bm, y, []))" by blast
    from consuming_ms [OF c m] have ne: "length be \<noteq> length bm" by simp
    show ?thesis
      using s Some a ne bm
      by (subst sub_loop.simps, subst (2) sub_loop.simps) (simp add: Suc_diff_le)
  qed
  also have "\<dots> = [c] @ sub_loop p repl (c # b) cs [] 0"
    by (rule sub_loop_gap [OF c])
  finally show ?thesis by simp
qed

lemma sub_loop_match:
  assumes c: "consuming p" and m: "ms p (b, r, []) = (be, re, g) # rest"
  shows "sub_loop p repl b r [] 0 = repl @ sub_loop p repl be re [] 0"
proof -
  from m have "(be, re, g) \<in> set (ms p (b, r, []))" by simp
  from consuming_ms [OF c this] have ne: "length be \<noteq> length b" by simp
  from m have s: "search p b r = Some (b, be, re, g)" by (cases r) simp_all
  have "sub_loop p repl b r [] 0 = repl @ sub_loop p repl be re [] (Suc 0)"
    using s ne by (subst sub_loop.simps) simp
  also have "sub_loop p repl be re [] (Suc 0) = sub_loop p repl be re [] 0"
    using sub_loop_gap [OF c, of repl be re "[]" "Suc 0"] by simp
  finally show ?thesis .
qed

lemma sub_loop_id:
  assumes c: "consuming p" and n: "\<And>b x y. r = x @ y \<Longrightarrow> ms p (b, y, []) = []"
  shows "sub_loop p repl b r [] 0 = r"
  using n
proof (induction r arbitrary: b)
  case Nil
  show ?case by (rule sub_loop_Nil [OF c])
next
  case (Cons a r)
  have "ms p (b, a # r, []) = []" by (rule Cons.prems [of "[]"]) simp
  from sub_loop_skip [OF c this]
  have "sub_loop p repl b (a # r) [] 0 = a # sub_loop p repl (a # b) r [] 0" .
  moreover have "sub_loop p repl (a # b) r [] 0 = r"
  proof (rule Cons.IH)
    fix b x y assume "r = x @ y"
    then have "a # r = (a # x) @ y" by simp
    then show "ms p (b, y, []) = []" by (rule Cons.prems)
  qed
  ultimately show ?case by simp
qed

lemma ms_str:
  "ms (str s) (b, r, g) = (if prefix s r then [(rev s @ b, drop (length s) r, g)] else [])"
proof (induction s arbitrary: b r)
  case Nil
  show ?case by simp
next
  case (Cons c s)
  show ?case
  proof (cases r)
    case Nil
    then show ?thesis by simp
  next
    case (Cons a r')
    then show ?thesis using Cons.IH [of "c # b" r'] by auto
  qed
qed

lemma ms_Star_Cls_stop:
  "r = [] \<or> hd r \<notin> set cs \<Longrightarrow> ms (Star (Cls cs)) (b, r, g) = [(b, r, g)]"
  by (cases r) (auto simp: ahead_def)

subsection \<open>The username normalizer\<close>

lemma consuming_user_dot: "consuming user_dot_regex"
  by (simp add: user_dot_regex_def opt_def)

lemma ms_opt_Cls:
  "ms (opt (Cls [c])) (b, r, g) =
     (if prefix [c] r then [(c # b, tl r, g), (b, r, g)] else [(b, r, g)])"
  by (cases r) (auto simp: opt_def)

lemma ms_user_dot:
  "ms user_dot_regex (b, r, []) =
     (if prefix ''(dot)'' r then [(rev ''(dot)'' @ b, drop 5 r, []), (rev ''(dot'' @ b, drop 4 r, [])]
      else if prefix ''(dot'' r then [(rev ''(dot'' @ b, drop 4 r, [])]
      else if prefix ''dot)'' r then [(rev ''dot)'' @ b, drop 4 r, []), (rev ''dot'' @ b, drop 3 r, [])]
      else if prefix ''dot'' r then [(rev ''dot'' @ b, drop 3 r, [])]
      else [])"
proof -
  have u: "user_dot_regex = Seq (opt (Cls ''('')) (Seq (str ''dot'') (Seq (opt (Cls '')'')) Eps))"
    by (simp add: user_dot_regex_def)
  show ?thesis
    unfolding u
    by (simp add: ms_opt_Cls ms_str del: str.simps)
       (auto simp: prefix_def drop_Suc split: list.splits)
qed


lemma sub_user_dot:
  "sub_loop user_dot_regex ''.'' b r [] 0 = replace_dot_markers r"
proof (induction r arbitrary: b rule: replace_dot_markers.induct)
  case 1
  show ?case by (simp add: sub_loop_Nil [OF consuming_user_dot])
next
  case (2 c cs)
  note m = ms_user_dot [of b "c # cs"]
  consider (a) "prefix ''(dot)'' (c # cs)"
    | (b) "\<not> prefix ''(dot)'' (c # cs)" "prefix ''(dot'' (c # cs)"
    | (c) "\<not> prefix ''(dot)'' (c # cs)" "\<not> prefix ''(dot'' (c # cs)" "prefix ''dot)'' (c # cs)"
    | (d) "\<not> prefix ''(dot)'' (c # cs)" "\<not> prefix ''(dot'' (c # cs)"
          "\<not> prefix ''dot)'' (c # cs)" "prefix ''dot'' (c # cs)"
    | (e) "\<not> prefix ''(dot)'' (c # cs)" "\<not> prefix ''(dot'' (c # cs)"
          "\<not> prefix ''dot)'' (c # cs)" "\<not> prefix ''dot'' (c # cs)"
    by blast
  then show ?case
  proof cases
    case a
    with m obtain rest where "ms user_dot_regex (b, c # cs, []) = (rev ''(dot)'' @ b, drop 4 cs, []) # rest"
      by simp
    from sub_loop_match [OF consuming_user_dot this]
    have "sub_loop user_dot_regex ''.'' b (c # cs) [] 0 = CHR ''.'' # replace_dot_markers (drop 4 cs)"
      by (simp only: "2.IH"(1) [OF a]) simp
    moreover have "replace_dot_markers (c # cs) = CHR ''.'' # replace_dot_markers (drop 4 cs)"
      using a by (simp only: replace_dot_markers.simps if_True)
    ultimately show ?thesis by simp
  next
    case b
    with m obtain rest where "ms user_dot_regex (b, c # cs, []) = (rev ''(dot'' @ b, drop 3 cs, []) # rest"
      by simp
    from sub_loop_match [OF consuming_user_dot this]
    have "sub_loop user_dot_regex ''.'' b (c # cs) [] 0 = CHR ''.'' # replace_dot_markers (drop 3 cs)"
      by (simp only: "2.IH"(2) [OF b]) simp
    moreover have "replace_dot_markers (c # cs) = CHR ''.'' # replace_dot_markers (drop 3 cs)"
      using b by (simp only: replace_dot_markers.simps if_True if_False)
    ultimately show ?thesis by simp
  next
    case c
    with m obtain rest where "ms user_dot_regex (b, c # cs, []) = (rev ''dot)'' @ b, drop 3 cs, []) # rest"
      by simp
    from sub_loop_match [OF consuming_user_dot this]
    have "sub_loop user_dot_regex ''.'' b (c # cs) [] 0 = CHR ''.'' # replace_dot_markers (drop 3 cs)"
      by (simp only: "2.IH"(3) [OF c]) simp
    moreover have "replace_dot_markers (c # cs) = CHR ''.'' # replace_dot_markers (drop 3 cs)"
      using c by (simp only: replace_dot_markers.simps if_True if_False)
    ultimately show ?thesis by simp
  next
    case d
    with m obtain rest where "ms user_dot_regex (b, c # cs, []) = (rev ''dot'' @ b, drop 2 cs, []) # rest"
      by simp
    from sub_loop_match [OF consuming_user_dot this]
    have "sub_loop user_dot_regex ''.'' b (c # cs) [] 0 = CHR ''.'' # replace_dot_markers (drop 2 cs)"
      by (simp only: "2.IH"(4) [OF d]) simp
    moreover have "replace_dot_markers (c # cs) = CHR ''.'' # replace_dot_markers (drop 2 cs)"
      using d by (simp only: replace_dot_markers.simps if_True if_False)
    ultimately show ?thesis by simp
  next
    case e
    with m have "ms user_dot_regex (b, c # cs, []) = []" by simp
    from sub_loop_skip [OF consuming_user_dot this]
    have "sub_loop user_dot_regex ''.'' b (c # cs) [] 0 = c # replace_dot_markers cs"
      by (simp only: "2.IH"(5) [OF e])
    moreover have "replace_dot_markers (c # cs) = c # replace_dot_markers cs"
      using e by (simp only: replace_dot_markers.simps if_True if_False)
    ultimately show ?thesis by simp
  qed
qed

text \<open>
  Claim C8. \<open>clean_username\<close> trims the fragment, replaces the spelled-out dot markers
  with dots and rejects (returns \<open>None\<close>) exactly when what is left has fewer than four
  characters; so an accepted name has at least four.
\<close>

theorem clean_username_spec:
  "clean_username s =
     (if length (replace_dot_markers (strip s)) < 4 then None
      else Some (replace_dot_markers (strip s))) \<and>
   (clean_username s = None) = (length (replace_dot_markers (strip s)) < 4) \<and>
   (\<forall>u. clean_username s = Some u \<longrightarrow> 4 \<le> length u)"
  by (simp add: clean_username_def re_sub_def sub_user_dot Let_def)

lemma clean_username_sample: "clean_username '' mary(dot)comeaux '' = Some ''mary.comeaux''"
  by code_simp

theorem clean_username_spec_witness:
  "clean_username '' mary(dot)comeaux '' = Some ''mary.comeaux'' \<and>
   replace_dot_markers (strip '' mary(dot)comeaux '') = ''mary.comeaux'' \<and>
   4 \<le> length ''mary.comeaux''"
  using clean_username_spec [of "'' mary(dot)comeaux ''"]
  by (simp add: clean_username_sample split: if_splits)

subsection \<open>The domain normalizer applied twice\<close>

lemma sub_non_dns:
  "sub_loop (NCls cs) [] b r [] 0 = filter (\<lambda>c. c \<in> set cs) r"
proof (induction r arbitrary: b)
  case Nil
  show ?case by (simp add: sub_loop_Nil)
next
  case (Cons c r)
  show ?case
  proof (cases "c \<in> set cs")
    case True
    then have "ms (NCls cs) (b, c # r, []) = []" by simp
    from sub_loop_skip [OF _ this, of "[]"] True Cons.IH show ?thesis by simp
  next
    case False
    then have "ms (NCls cs) (b, c # r, []) = (c # b, r, []) # []" by simp
    from sub_loop_match [OF _ this, of "[]"] False Cons.IH show ?thesis by simp
  qed
qed

lemma ms_Star_Cls_hd:
  "\<exists>rest. ms (Star (Cls cs)) (b, r, g) =
     (rev (takeWhile (\<lambda>c. c \<in> set cs) r) @ b, dropWhile (\<lambda>c. c \<in> set cs) r, g) # rest"
proof (induction r arbitrary: b)
  case Nil
  show ?case by (simp add: ahead_def)
next
  case (Cons c r)
  show ?case
  proof (cases "c \<in> set cs")
    case True
    then have "ms (Star (Cls cs)) (b, c # r, g) = ms (Star (Cls cs)) (c # b, r, g) @ [(b, c # r, g)]"
      by (simp add: ahead_def)
    with Cons.IH [of "c # b"] True show ?thesis by auto
  next
    case False
    then show ?thesis by (simp add: ahead_def)
  qed
qed

lemma ms_plus_Cls_hd:
  assumes "c \<in> set cs"
  shows "\<exists>b' rest. ms (plus (Cls cs)) (b, c # r, g) =
     (b', dropWhile (\<lambda>c. c \<in> set cs) r, g) # rest"
proof -
  from ms_Star_Cls_hd [of cs "c # b" r g] obtain rest where
    "ms (Star (Cls cs)) (c # b, r, g) =
       (rev (takeWhile (\<lambda>c. c \<in> set cs) r) @ c # b, dropWhile (\<lambda>c. c \<in> set cs) r, g) # rest"
    by blast
  with assms show ?thesis by (simp add: plus_def)
qed

lemma ms_plus_Cls_none: "r = [] \<or> hd r \<notin> set cs \<Longrightarrow> ms (plus (Cls cs)) (b, r, g) = []"
  by (cases r) (auto simp: plus_def)

lemma consuming_plus_Cls: "consuming (plus (Cls cs))"
  by (simp add: plus_def)

lemma contains_Cons_dots:
  "contains (c # s) ''..'' \<longleftrightarrow> (c = CHR ''.'' \<and> s \<noteq> [] \<and> hd s = CHR ''.'') \<or> contains s ''..''"
  by (cases s) auto

lemma sub_dots_props:
  "\<not> contains (sub_loop (plus (Cls ''.'')) ''.'' b r [] 0) ''..'' \<and>
   set (sub_loop (plus (Cls ''.'')) ''.'' b r [] 0) \<subseteq> set r \<and>
   (sub_loop (plus (Cls ''.'')) ''.'' b r [] 0 \<noteq> [] \<longrightarrow>
      r \<noteq> [] \<and> hd (sub_loop (plus (Cls ''.'')) ''.'' b r [] 0) = hd r)"
proof (induction "length r" arbitrary: b r rule: less_induct)
  case less
  let ?D = "plus (Cls ''.'')"
  show ?case
  proof (cases r)
    case Nil
    then show ?thesis by (simp add: sub_loop_Nil [OF consuming_plus_Cls])
  next
    case (Cons c cs)
    show ?thesis
    proof (cases "c = CHR ''.''")
      case False
      then have "ms ?D (b, c # cs, []) = []" by (simp add: ms_plus_Cls_none)
      from sub_loop_skip [OF consuming_plus_Cls this]
      have u: "sub_loop ?D ''.'' b (c # cs) [] 0 = c # sub_loop ?D ''.'' (c # b) cs [] 0" .
      from less [of cs "c # b"] Cons False show ?thesis
        unfolding Cons u contains_Cons_dots by auto
    next
      case True
      let ?r' = "dropWhile (\<lambda>c. c \<in> set ''.'') cs"
      from ms_plus_Cls_hd [of c "''.''" b cs "[]"] True obtain b' rest where
        "ms ?D (b, c # cs, []) = (b', ?r', []) # rest" by auto
      from sub_loop_match [OF consuming_plus_Cls this]
      have u: "sub_loop ?D ''.'' b (c # cs) [] 0 = CHR ''.'' # sub_loop ?D ''.'' b' ?r' [] 0"
        by simp
      have l: "length ?r' < length r"
        using Cons length_dropWhile_le [of "\<lambda>c. c \<in> set ''.''" cs] by simp
      let ?out = "sub_loop ?D ''.'' b' ?r' [] 0"
      from less [OF l, of b'] have nc: "\<not> contains ?out ''..''" and ss: "set ?out \<subseteq> set ?r'"
        and hh: "?out \<noteq> [] \<Longrightarrow> ?r' \<noteq> [] \<and> hd ?out = hd ?r'"
        by simp_all
      have h: "?out \<noteq> [] \<Longrightarrow> hd ?out \<noteq> CHR ''.''"
      proof -
        assume "?out \<noteq> []"
        with hh have ne: "?r' \<noteq> []" and e: "hd ?out = hd ?r'" by simp_all
        from hd_dropWhile [OF ne] have "hd ?r' \<noteq> CHR ''.''" by simp
        with e show ?thesis by simp
      qed
      have 1: "\<not> contains (CHR ''.'' # ?out) ''..''"
        unfolding contains_Cons_dots using nc h by blast
      have "set ?r' \<subseteq> set cs" by (auto dest: set_dropWhileD)
      with ss True have 2: "set (CHR ''.'' # ?out) \<subseteq> set (c # cs)" by auto
      from 1 2 True show ?thesis unfolding Cons u by simp
    qed
  qed
qed

lemma sub_dots_id:
  "\<not> contains r ''..'' \<Longrightarrow> sub_loop (plus (Cls ''.'')) ''.'' b r [] 0 = r"
proof (induction r arbitrary: b)
  case Nil
  show ?case by (simp add: sub_loop_Nil [OF consuming_plus_Cls])
next
  case (Cons c cs)
  let ?D = "plus (Cls ''.'')"
  from Cons.prems have n: "\<not> contains cs ''..''" and
    h: "c = CHR ''.'' \<Longrightarrow> cs = [] \<or> hd cs \<noteq> CHR ''.''"
    unfolding contains_Cons_dots by auto
  show ?case
  proof (cases "c = CHR ''.''")
    case False
    then have "ms ?D (b, c # cs, []) = []" by (simp add: ms_plus_Cls_none)
    from sub_loop_skip [OF consuming_plus_Cls this] Cons.IH [OF n] show ?thesis by simp
  next
    case True
    with h have "cs = [] \<or> hd cs \<notin> set ''.''" by auto
    from ms_Star_Cls_stop [OF this] True
    have "ms ?D (b, c # cs, []) = (c # b, cs, []) # []" by (simp add: plus_def)
    from sub_loop_match [OF consuming_plus_Cls this] Cons.IH [OF n] True show ?thesis by simp
  qed
qed

lemma strip_id: "\<forall>c\<in>set s. c \<notin> set whitespace \<Longrightarrow> strip s = s"
proof -
  assume a: "\<forall>c\<in>set s. c \<notin> set whitespace"
  then have "dropWhile (\<lambda>c. c \<in> set whitespace) s = s"
    by (cases s) auto
  moreover from a have "dropWhile (\<lambda>c. c \<in> set whitespace) (rev s) = rev s"
    by (cases "rev s") (auto simp: rev_eq_Cons_iff)
  ultimately show ?thesis by (simp add: strip_def)
qed

lemma dns_not_space: "c \<in> set dns_chars \<Longrightarrow> c \<notin> set whitespace"
  by (auto simp: dns_chars_def alnum_def lower_az_def upper_AZ_def digits_def whitespace_def)

lemma dns_not_open: "c \<in> set dns_chars \<Longrightarrow> c \<notin> set ''([''"
  by (auto simp: dns_chars_def alnum_def lower_az_def upper_AZ_def digits_def)

lemma consuming_patterns:
  "consuming gmail_synonyms_regex" "consuming (plus ws)" "consuming dot_regex"
  "consuming non_dns_regex"
  by (simp_all add: gmail_synonyms_regex_def gmail_synonyms_def plus_def ws_def dot_regex_def
      non_dns_regex_def)

lemma no_gmail_synonym:
  "CHR '' '' \<notin> set y \<Longrightarrow> ms gmail_synonyms_regex (b, y, []) = []"
  unfolding gmail_synonyms_regex_def gmail_synonyms_def
  by (auto simp: ms_str simp del: str.simps dest: set_mono_prefix)

lemma no_dot_regex:
  assumes "y = [] \<or> hd y \<notin> set ''([''" and "\<not> prefix ''dot'' y"
  shows "ms dot_regex (b, y, []) = []"
  unfolding dot_regex_def
  using assms by (simp add: ms_Star_Cls_stop ms_str del: str.simps ms.simps(6))



lemma ms_alts_str:
  "L \<noteq> [] \<Longrightarrow> st \<in> set (ms (alts (map str L)) (b, r, g)) \<Longrightarrow>
     \<exists>s\<in>set L. prefix s r \<and> st = (rev s @ b, drop (length s) r, g)"
proof (induction L)
  case Nil
  then show ?case by simp
next
  case (Cons s L)
  show ?case
  proof (cases L)
    case Nil
    with Cons.prems show ?thesis
      by (simp add: ms_str del: str.simps split: if_splits)
  next
    case (Cons s' L')
    then have "alts (map str (s # L)) = Alt (str s) (alts (map str L))" by simp
    with Cons.prems have "st \<in> set (ms (str s) (b, r, g)) \<or> st \<in> set (ms (alts (map str L)) (b, r, g))"
      by simp
    then show ?thesis
    proof
      assume "st \<in> set (ms (str s) (b, r, g))"
      then show ?thesis by (simp add: ms_str del: str.simps split: if_splits)
    next
      assume "st \<in> set (ms (alts (map str L)) (b, r, g))"
      with Cons.IH Cons show ?thesis by auto
    qed
  qed
qed

lemma re_match_common:
  assumes "re_match (Seq common_domains_regex Eol) r"
  shows "\<exists>s\<in>set common_domains. r = s \<or> r = s @ [CHR 0x0A]"
proof -
  from assms obtain st where st: "st \<in> set (ms common_domains_regex ([], r, []))"
    and e: "ms Eol st \<noteq> []"
    unfolding re_match_def by auto
  have "common_domains \<noteq> []" by (simp add: common_domains_def)
  from ms_alts_str [OF this st [unfolded common_domains_regex_def]] obtain s where
    s: "s \<in> set common_domains" and p: "prefix s r" and "st = (rev s @ [], drop (length s) r, [])"
    by blast
  with e have "drop (length s) r = [] \<or> drop (length s) r = [CHR 0x0A]"
    by (simp split: if_splits)
  with p have "r = s \<or> r = s @ [CHR 0x0A]" by (auto simp: prefix_def)
  with s show ?thesis by blast
qed

lemma non_dns_regex_dns_chars: "non_dns_regex = NCls dns_chars"
  by (simp add: non_dns_regex_def)

lemma clean_domain_fixed:
  assumes dns: "set d \<subseteq> set dns_chars" and nodd: "\<not> contains d ''..''"
    and dot: "contains d ''.''" and gm: "contains d ''gmail'' \<Longrightarrow> d = ''gmail.com''"
    and nd: "\<not> contains d ''dot''"
  shows "clean_domain d = d"
proof -
  have suf_dns: "set y \<subseteq> set dns_chars" if "d = x @ y" for x y
    using dns that by auto
  have suf_hd: "y = [] \<or> hd y \<in> set dns_chars" if "d = x @ y" for x y
    using suf_dns [OF that] by (cases y) auto
  have suf_dot: "\<not> prefix ''dot'' y" if "d = x @ y" for x y
  proof
    assume "prefix ''dot'' y"
    then obtain zs where "y = ''dot'' @ zs" by (auto simp: prefix_def)
    with that have "d = x @ ''dot'' @ zs" by simp
    with nd show False unfolding contains_iff by blast
  qed
  have s1: "re_sub gmail_synonyms_regex ''gmail'' d = d"
    unfolding re_sub_def
  proof (rule sub_loop_id [OF consuming_patterns(1)])
    fix b x y assume "d = x @ y"
    from suf_dns [OF this] dns_not_space [of "CHR '' ''"] have "CHR '' '' \<notin> set y"
      by (auto simp: whitespace_def)
    then show "ms gmail_synonyms_regex (b, y, []) = []" by (rule no_gmail_synonym)
  qed
  have s2: "re_sub (plus ws) ''.'' d = d"
    unfolding re_sub_def
  proof (rule sub_loop_id [OF consuming_patterns(2)])
    fix b x y assume "d = x @ y"
    from suf_hd [OF this] have "y = [] \<or> hd y \<notin> set whitespace"
      by (auto dest: dns_not_space)
    then show "ms (plus ws) (b, y, []) = []"
      unfolding ws_def by (rule ms_plus_Cls_none)
  qed
  have s3: "re_sub dot_regex ''.'' d = d"
    unfolding re_sub_def
  proof (rule sub_loop_id [OF consuming_patterns(3)])
    fix b x y assume xy: "d = x @ y"
    from suf_hd [OF xy] have "y = [] \<or> hd y \<notin> set ''([''"
      by (auto dest: dns_not_open)
    then show "ms dot_regex (b, y, []) = []"
      using suf_dot [OF xy] by (rule no_dot_regex)
  qed
  have s4: "re_sub non_dns_regex [] d = d"
    unfolding re_sub_def non_dns_regex_dns_chars sub_non_dns
    using dns by (auto simp: filter_id_conv)
  have s5: "re_sub (plus (Cls ''.'')) ''.'' d = d"
    unfolding re_sub_def using nodd by (rule sub_dots_id)
  have s6: "strip d = d"
    using dns by (intro strip_id) (auto dest: dns_not_space)
  have s7: "\<not> re_match (Seq common_domains_regex Eol) d"
  proof
    assume "re_match (Seq common_domains_regex Eol) d"
    from re_match_common [OF this] obtain s where "s \<in> set common_domains"
      and "d = s \<or> d = s @ [CHR 0x0A]" by blast
    then have "CHR ''.'' \<notin> set d" by (auto simp: common_domains_def)
    with dot show False by (simp add: contains_char)
  qed
  from dot gm show ?thesis
    unfolding clean_domain_def Let_def s1 s2 s3 s4 s5 s6
    by (simp only: s7 if_False) (auto simp del: contains.simps)
qed

lemma common_domains_com:
  "\<forall>s\<in>set common_domains. \<not> contains (s @ ''.com'') ''..'' \<and>
      \<not> contains (s @ [CHR 0x0A] @ ''.com'') ''..''"
  by code_simp

lemma com_dns: "set ''.com'' \<subseteq> set dns_chars"
  by (simp add: dns_chars_def alnum_def lower_az_def upper_AZ_def digits_def)

lemma clean_domain_canonical:
  assumes ne: "clean_domain x \<noteq> []"
  shows "set (clean_domain x) \<subseteq> set dns_chars \<and> \<not> contains (clean_domain x) ''..'' \<and>
     contains (clean_domain x) ''.'' \<and>
     (contains (clean_domain x) ''gmail'' \<longrightarrow> clean_domain x = ''gmail.com'')"
proof -
  define r3 where "r3 = re_sub dot_regex ''.'' (re_sub (plus ws) ''.''
      (re_sub gmail_synonyms_regex ''gmail'' x))"
  define r4 where "r4 = re_sub non_dns_regex [] r3"
  define r5 where "r5 = re_sub (plus (Cls ''.'')) ''.'' r4"
  define r7 where "r7 = (if re_match (Seq common_domains_regex Eol) (strip r5)
      then strip r5 @ ''.com'' else strip r5)"
  have cd: "clean_domain x = (if \<not> contains r7 ''.'' then []
      else if contains r7 ''gmail'' \<and> r7 \<noteq> ''gmail.com'' then [] else r7)"
    unfolding clean_domain_def Let_def r7_def r5_def r4_def r3_def ..
  have d4: "set r4 \<subseteq> set dns_chars"
    unfolding r4_def re_sub_def non_dns_regex_dns_chars sub_non_dns by auto
  from sub_dots_props [of "[]" r4] have n5: "\<not> contains r5 ''..''" and "set r5 \<subseteq> set r4"
    unfolding r5_def re_sub_def by simp_all
  with d4 have d5: "set r5 \<subseteq> set dns_chars" by simp
  then have s6: "strip r5 = r5" by (intro strip_id) (auto dest: dns_not_space)
  have p7: "set r7 \<subseteq> set dns_chars \<and> \<not> contains r7 ''..''"
  proof (cases "re_match (Seq common_domains_regex Eol) r5")
    case False
    with d5 n5 show ?thesis by (simp add: r7_def s6)
  next
    case True
    from re_match_common [OF this] obtain s where s: "s \<in> set common_domains"
      and e: "r5 = s \<or> r5 = s @ [CHR 0x0A]" by blast
    from True have r7: "r7 = r5 @ ''.com''" by (simp add: r7_def s6)
    from e s common_domains_com have "\<not> contains (r5 @ ''.com'') ''..''" by auto
    moreover from d5 com_dns have "set (r5 @ ''.com'') \<subseteq> set dns_chars" by simp
    ultimately show ?thesis unfolding r7 by blast
  qed
  from ne cd have "clean_domain x = r7" and "contains r7 ''.''"
    and "contains r7 ''gmail'' \<longrightarrow> r7 = ''gmail.com''"
    by (auto split: if_splits simp del: contains.simps)
  with p7 show ?thesis by (simp del: contains.simps)
qed

lemma clean_domain_empty: "clean_domain [] = []"
  by code_simp

lemma clean_domain_twice:
  "\<not> contains (clean_domain x) ''dot'' \<Longrightarrow> clean_domain (clean_domain x) = clean_domain x"
proof (cases "clean_domain x = []")
  case True
  then show ?thesis by (simp add: clean_domain_empty)
next
  case False
  assume nd: "\<not> contains (clean_domain x) ''dot''"
  from clean_domain_canonical [OF False] nd show ?thesis
    by (intro clean_domain_fixed) simp_all
qed

subsection \<open>The text a match passes\<close>

lemma star_iter_lang:
  assumes f: "\<And>b r g b' r' g'. (b', r', g') \<in> set (f (b, r, g)) \<Longrightarrow>
      \<exists>w\<in>A. r = w @ r' \<and> b' = rev w @ b"
  shows "(b', r', g') \<in> set (star_iter f n (b, r, g)) \<Longrightarrow>
      \<exists>w\<in>star_lang A. r = w @ r' \<and> b' = rev w @ b"
proof (induction n arbitrary: b r g)
  case 0
  then have "r = [] @ r' \<and> b' = rev [] @ b" by simp
  with star_lang.Nil show ?case by blast
next
  case (Suc n)
  from Suc.prems consider "(b', r', g') = (b, r, g)"
    | b1 r1 g1 where "(b1, r1, g1) \<in> set (f (b, r, g))"
        and "(b', r', g') \<in> set (star_iter f n (b1, r1, g1))"
    by auto
  then show ?case
  proof cases
    case 1
    then have "r = [] @ r' \<and> b' = rev [] @ b" by simp
    with star_lang.Nil show ?thesis by blast
  next
    case 2
    from f [OF 2(1)] obtain a where a: "a \<in> A" "r = a @ r1" "b1 = rev a @ b" by blast
    from Suc.IH [OF 2(2)] obtain w where w: "w \<in> star_lang A" "r1 = w @ r'" "b' = rev w @ b1"
      by blast
    from a w have "a @ w \<in> star_lang A" and "r = (a @ w) @ r' \<and> b' = rev (a @ w) @ b"
      by (auto intro: star_lang.App)
    then show ?thesis by blast
  qed
qed

lemma ms_lang:
  "(b', r', g') \<in> set (ms p (b, r, g)) \<Longrightarrow> \<exists>w\<in>lang p. r = w @ r' \<and> b' = rev w @ b"
proof (induction p arbitrary: b r g b' r' g')
  case (Seq p q)
  from Seq.prems obtain b1 r1 g1 where 1: "(b1, r1, g1) \<in> set (ms p (b, r, g))"
    and 2: "(b', r', g') \<in> set (ms q (b1, r1, g1))"
    by auto
  from Seq.IH(1) [OF 1] obtain u where u: "u \<in> lang p" "r = u @ r1" "b1 = rev u @ b" by blast
  from Seq.IH(2) [OF 2] obtain v where v: "v \<in> lang q" "r1 = v @ r'" "b' = rev v @ b1" by blast
  from u v have "u @ v \<in> lang (Seq p q)" and "r = (u @ v) @ r' \<and> b' = rev (u @ v) @ b"
    by auto
  then show ?case by blast
next
  case (Alt p q)
  from Alt.prems have "(b', r', g') \<in> set (ms p (b, r, g)) \<or> (b', r', g') \<in> set (ms q (b, r, g))"
    by simp
  then show ?case
  proof
    assume "(b', r', g') \<in> set (ms p (b, r, g))"
    from Alt.IH(1) [OF this] show ?thesis by auto
  next
    assume "(b', r', g') \<in> set (ms q (b, r, g))"
    from Alt.IH(2) [OF this] show ?thesis by auto
  qed
next
  case (Star p)
  from Star.prems have "(b', r', g') \<in> set (star_iter (ms p) (length r) (b, r, g))"
    by (simp add: ahead_def)
  then have "\<exists>w\<in>star_lang (lang p). r = w @ r' \<and> b' = rev w @ b"
    by (rule star_iter_lang [rotated]) (rule Star.IH)
  then show ?case by simp
next
  case (Grp k p)
  from Grp.prems obtain g1 where "(b', r', g1) \<in> set (ms p (b, r, g))"
    by auto
  from Grp.IH [OF this] show ?case by simp
qed (auto split: list.splits if_splits)

lemma ms_Grp_group:
  assumes "(b', r', g') \<in> set (ms (Grp k p) (b, r, g))"
  shows "group g' k \<in> lang p"
proof -
  from assms obtain g1 where m: "(b', r', g1) \<in> set (ms p (b, r, g))"
    and g': "g' = (k, rev (take (length b' - length b) b')) # g1"
    by auto
  from ms_lang [OF m] obtain w where w: "w \<in> lang p" and b': "b' = rev w @ b" by blast
  from g' b' have "group g' k = w" by (simp add: group_def)
  with w show ?thesis by simp
qed

lemma ms_dns_re_group:
  assumes "(b', r', g') \<in> set (ms dns_re st)"
  shows "group g' 2 \<in> lang (Seq dns_label_regex (Star (Seq dns_separator_regex dns_label_regex)))"
proof -
  from assms obtain st1 where "(b', r', g') \<in> set (ms (Grp 2 (Seq dns_label_regex
      (Star (Seq dns_separator_regex dns_label_regex)))) st1)"
    unfolding dns_re_def by (auto simp del: ms.simps(9))
  then show ?thesis by (cases st1) (auto dest: ms_Grp_group simp del: ms.simps)
qed

lemma ms_email_regex_group:
  assumes "(b', r', g') \<in> set (ms email_regex st)"
  shows "group g' 2 \<in> lang (Seq dns_label_regex (Star (Seq dns_separator_regex dns_label_regex)))"
proof -
  from assms obtain st1 where "(b', r', g') \<in> set (ms dns_re st1)"
    unfolding email_regex_def by auto
  then show ?thesis by (rule ms_dns_re_group)
qed

lemma findall_loop_ms:
  "(u, d) \<in> set (findall_loop p b r) \<Longrightarrow>
     \<exists>st b' r' g'. (b', r', g') \<in> set (ms p st) \<and> u = group g' 1 \<and> d = group g' 2"
proof (induction "length r" arbitrary: b r rule: less_induct)
  case less
  show ?case
  proof (cases "search p b r")
    case None
    with less.prems show ?thesis by (subst (asm) findall_loop.simps) simp
  next
    case (Some a)
    obtain bm be re g where a: "a = (bm, be, re, g)" by (cases a) auto
    from search_split [OF Some [unfolded a]] obtain y where
      m: "(be, re, g) \<in> set (ms p (bm, y, []))" by blast
    from search_len [OF Some [unfolded a]] have l: "length be + length re = length b + length r"
      "length b \<le> length bm" "length bm \<le> length be" by simp_all
    from less.prems Some a consider "(u, d) = (group g 1, group g 2)"
      | c cs where "re = c # cs" "length be = length bm" "(u, d) \<in> set (findall_loop p (c # be) cs)"
      | "length be \<noteq> length bm" "(u, d) \<in> set (findall_loop p be re)"
      by (subst (asm) findall_loop.simps) (auto split: if_splits list.splits)
    then show ?thesis
    proof cases
      case 1
      with m show ?thesis by blast
    next
      case 2
      from 2(1) l have "length cs < length r" by simp
      from less.hyps [OF this 2(3)] show ?thesis .
    next
      case 3
      from 3(1) l have "length re < length r" by simp
      from less.hyps [OF this 3(2)] show ?thesis .
    qed
  qed
qed

subsection \<open>The domains that the matcher captures\<close>

text \<open>
  In a captured domain the labels are runs of letters, digits and hyphens, in parentheses
  or brackets at most, and every separator holds a dot, whitespace or the word \<open>dot\<close>
  as a whole: \<open>scan\<close> gets through it.
\<close>

lemma scan_append:
  "scan q (u @ v) = (case scan q u of None \<Rightarrow> None | Some q' \<Rightarrow> scan q' v)"
  by (induction u arbitrary: q) auto

lemma scan_gaps:
  "gaps w \<Longrightarrow> scan q w = Some (if w = [] \<or> q = Idle then q else Gapped)"
  by (induction w arbitrary: q) (simp_all add: gaps_def)

lemma scan_core:
  "\<forall>c\<in>set w. \<not> gap_char c \<Longrightarrow> q \<noteq> Gapped \<Longrightarrow> \<exists>q'. scan q w = Some q' \<and> q' \<noteq> Gapped"
  by (induction w arbitrary: q) simp_all

lemma reset_append: "reset u \<Longrightarrow> reset v \<Longrightarrow> reset (u @ v)"
  by (simp add: reset_def scan_append)

lemma reset_gaps: "reset u \<Longrightarrow> gaps v \<Longrightarrow> reset (u @ v)"
  by (simp add: reset_def scan_append scan_gaps)

lemma gaps_reset: "gaps u \<Longrightarrow> reset v \<Longrightarrow> reset (u @ v)"
  by (simp add: reset_def scan_append scan_gaps)

lemma gaps_append: "gaps u \<Longrightarrow> gaps v \<Longrightarrow> gaps (u @ v)"
  by (auto simp: gaps_def)

lemma soft_append: "soft u \<Longrightarrow> soft v \<Longrightarrow> soft (u @ v)"
  unfolding soft_def using reset_append reset_gaps gaps_reset gaps_append by blast

lemma reset_soft_append: "reset u \<Longrightarrow> soft v \<Longrightarrow> reset (u @ v)"
  unfolding soft_def using reset_append reset_gaps by blast

lemma soft_reset_append: "soft u \<Longrightarrow> reset v \<Longrightarrow> reset (u @ v)"
  unfolding soft_def using reset_append gaps_reset by blast

lemma soft_Nil: "soft []"
  by (simp add: soft_def gaps_def)

lemma soft_empty:
  "soft_re Eps" "soft_re (Ahead p)" "soft_re (Behind n p)" "soft_re WordB" "soft_re Eol"
  by (simp_all add: soft_re_def soft_Nil)

lemma soft_Cls:
  "\<forall>c\<in>set cs. c \<notin> set alnum \<and> c \<noteq> CHR ''-'' \<Longrightarrow> soft_re (Cls cs)"
proof -
  assume a: "\<forall>c\<in>set cs. c \<notin> set alnum \<and> c \<noteq> CHR ''-''"
  have "soft [c]" if "c \<in> set cs" for c
  proof (cases "gap_char c")
    case True
    then show ?thesis by (simp add: soft_def gaps_def)
  next
    case False
    with a that have "c = CHR ''.'' \<or> c \<in> set whitespace"
      by (auto simp: gap_char_def dns_chars_def)
    with False have "reset [c]"
      by (auto simp: reset_def whitespace_def)
    then show ?thesis by (simp add: soft_def)
  qed
  then show ?thesis by (auto simp: soft_re_def)
qed

lemma reset_Cls:
  "\<forall>c\<in>set cs. c = CHR ''.'' \<or> c \<in> set whitespace \<Longrightarrow> reset_re (Cls cs)"
proof -
  assume a: "\<forall>c\<in>set cs. c = CHR ''.'' \<or> c \<in> set whitespace"
  have "reset [c]" if "c \<in> set cs" for c
  proof -
    from a that have c: "c = CHR ''.'' \<or> c \<in> set whitespace" by simp
    then have "\<not> gap_char c" by (auto simp: gap_char_def dns_chars_def)
    with c show ?thesis by (auto simp: reset_def whitespace_def)
  qed
  then show ?thesis by (auto simp: reset_re_def)
qed

lemma reset_dot: "reset_re (str ''dot'')"
  by (simp add: reset_re_def reset_def gap_char_def dns_chars_def alnum_def lower_az_def)

lemma reset_soft: "reset_re p \<Longrightarrow> soft_re p"
  by (simp add: reset_re_def soft_re_def soft_def)

lemma soft_Seq: "soft_re p \<Longrightarrow> soft_re q \<Longrightarrow> soft_re (Seq p q)"
  by (auto simp: soft_re_def soft_append)

lemma soft_Alt: "soft_re p \<Longrightarrow> soft_re q \<Longrightarrow> soft_re (Alt p q)"
  by (auto simp: soft_re_def)

lemma soft_Star: "soft_re p \<Longrightarrow> soft_re (Star p)"
proof -
  assume p: "soft_re p"
  have "soft w" if "w \<in> star_lang (lang p)" for w
    using that by induction (use p in \<open>auto simp: soft_re_def soft_Nil soft_append\<close>)
  then show ?thesis by (simp add: soft_re_def)
qed

lemma reset_Alt: "reset_re p \<Longrightarrow> reset_re q \<Longrightarrow> reset_re (Alt p q)"
  by (auto simp: reset_re_def)

lemma reset_Seq_soft: "reset_re p \<Longrightarrow> soft_re q \<Longrightarrow> reset_re (Seq p q)"
  by (auto simp: reset_re_def soft_re_def reset_soft_append)

lemma soft_Seq_reset: "soft_re p \<Longrightarrow> reset_re q \<Longrightarrow> reset_re (Seq p q)"
  by (auto simp: reset_re_def soft_re_def soft_reset_append)

lemma reset_plus: "reset_re p \<Longrightarrow> reset_re (plus p)"
  unfolding plus_def by (intro reset_Seq_soft soft_Star reset_soft)

lemma soft_plus: "soft_re p \<Longrightarrow> soft_re (plus p)"
  unfolding plus_def by (intro soft_Seq soft_Star)

lemma soft_brackets:
  "soft_re (Cls '','')" "soft_re (Cls ''('')" "soft_re (Cls '')'')" "soft_re (Cls ''['')"
  "soft_re (Cls '']'')" "soft_re (Cls ''{'')" "soft_re (Cls ''}'')" "soft_re (Cls ''(['')"
  "soft_re (Cls '')]'')"
  by (rule soft_Cls, simp add: alnum_def lower_az_def upper_AZ_def digits_def)+

lemma reset_dots:
  "reset_re (Cls ''.'')" "reset_re ws" "reset_re (Cls (CHR ''.'' # whitespace))"
  unfolding ws_def by (rule reset_Cls, simp)+

lemma reset_dot_regex: "reset_re dot_regex"
  unfolding dot_regex_def seqs.simps
  by (intro soft_Seq_reset reset_Seq_soft soft_Seq soft_Star soft_brackets soft_empty reset_dot)

lemmas reset_rules =
  reset_Seq_soft soft_Seq_reset soft_Seq soft_Alt soft_Star soft_plus reset_plus reset_Alt
  reset_soft soft_brackets soft_empty reset_dots reset_dot_regex

lemma reset_separator: "reset_re dns_separator_regex"
  unfolding dns_separator_regex_def dns_separator_regexes_def
  by (simp del: str.simps, intro reset_Alt; blast intro: reset_rules)

lemma lang_Star_Cls: "w \<in> lang (Star (Cls cs)) \<Longrightarrow> set w \<subseteq> set cs"
proof -
  assume "w \<in> lang (Star (Cls cs))"
  then have "w \<in> star_lang {[c] | c. c \<in> set cs}" by simp
  then show ?thesis by induction auto
qed

lemma lang_plus_Cls: "w \<in> lang (plus (Cls cs)) \<Longrightarrow> set w \<subseteq> set cs"
proof -
  assume "w \<in> lang (plus (Cls cs))"
  then obtain c v where "w = [c] @ v" "c \<in> set cs" "v \<in> lang (Star (Cls cs))"
    unfolding plus_def by auto
  with lang_Star_Cls [of v cs] show ?thesis by auto
qed

lemma alnum_not_gap: "c \<in> set (alnum @ ''-'') \<Longrightarrow> \<not> gap_char c"
  by (auto simp: gap_char_def dns_chars_def)

lemma lang_basic_label:
  assumes "w \<in> lang basic_dns_label_regex"
  shows "\<forall>c\<in>set w. \<not> gap_char c"
proof -
  from assms obtain a m z where w: "w = [a] @ m @ [z]" and a: "a \<in> set alnum"
    and m: "m \<in> lang (Star (Cls (alnum @ ''-'')))" and z: "z \<in> set alnum"
    unfolding basic_dns_label_regex_def by auto
  from lang_Star_Cls [OF m] a z have "set w \<subseteq> set (alnum @ ''-'')"
    unfolding w by auto
  then show ?thesis using alnum_not_gap by blast
qed

lemma scan_wrapped:
  assumes o: "gaps x" and c: "\<forall>c\<in>set w. \<not> gap_char c" and z: "gaps y"
  shows "scan Idle (x @ w @ y) \<noteq> None"
proof -
  from scan_core [OF c, of Idle] obtain q where "scan Idle w = Some q" by auto
  with scan_gaps [OF o, of Idle] scan_gaps [OF z, of q] show ?thesis
    by (simp add: scan_append)
qed

lemma gaps_brackets:
  "set w \<subseteq> set ''('' \<Longrightarrow> gaps w" "set w \<subseteq> set '')'' \<Longrightarrow> gaps w"
  "set w \<subseteq> set ''['' \<Longrightarrow> gaps w" "set w \<subseteq> set '']'' \<Longrightarrow> gaps w"
  by (auto simp: gaps_def gap_char_def dns_chars_def alnum_def lower_az_def upper_AZ_def
      digits_def whitespace_def)

lemma scan_label:
  assumes "w \<in> lang dns_label_regex"
  shows "scan Idle w \<noteq> None"
proof -
  from assms consider "w \<in> lang basic_dns_label_regex"
    | x v y where "w = x @ v @ y" "x \<in> lang (plus (Cls ''(''))"
        "v \<in> lang basic_dns_label_regex" "y \<in> lang (plus (Cls '')''))"
    | x v y where "w = x @ v @ y" "x \<in> lang (plus (Cls ''[''))"
        "v \<in> lang basic_dns_label_regex" "y \<in> lang (plus (Cls '']''))"
    unfolding dns_label_regex_def wrapped_basic_dns_label_regexes_def by auto
  then show ?thesis
  proof cases
    case 1
    from scan_wrapped [OF _ lang_basic_label [OF 1], of "[]" "[]"] show ?thesis
      by (simp add: gaps_def)
  next
    case 2
    from 2(2,4) have "gaps x" "gaps y"
      by (auto dest!: lang_plus_Cls intro: gaps_brackets)
    from scan_wrapped [OF this(1) lang_basic_label [OF 2(3)] this(2)] 2(1) show ?thesis
      by simp
  next
    case 3
    from 3(2,4) have "gaps x" "gaps y"
      by (auto dest!: lang_plus_Cls intro: gaps_brackets)
    from scan_wrapped [OF this(1) lang_basic_label [OF 3(3)] this(2)] 3(1) show ?thesis
      by simp
  qed
qed

lemma scan_labels:
  assumes S: "reset_re S" and L: "\<And>l. l \<in> lang L \<Longrightarrow> scan Idle l \<noteq> None"
    and w: "w \<in> star_lang (lang (Seq S L))"
  shows "scan q w \<noteq> None"
  using w
proof (induction arbitrary: q)
  case Nil
  show ?case by simp
next
  case (App a w)
  from App.hyps(1) obtain s l where a: "a = s @ l" and s: "s \<in> lang S" and l: "l \<in> lang L"
    by auto
  from s S have "scan q s = Some Idle" by (simp add: reset_re_def reset_def)
  moreover from L [OF l] obtain q' where "scan Idle l = Some q'" by auto
  ultimately have "scan q (a @ w) = scan q' w" by (simp add: a scan_append)
  with App.IH show ?case by simp
qed

lemma scan_domain:
  assumes S: "reset_re S" and L: "\<And>l. l \<in> lang L \<Longrightarrow> scan Idle l \<noteq> None"
    and w: "w \<in> lang (Seq L (Star (Seq S L)))"
  shows "scan Idle w \<noteq> None"
proof -
  from w have "w \<in> {u @ v | u v. u \<in> lang L \<and> v \<in> star_lang (lang (Seq S L))}"
    by (simp only: lang.simps(4,6))
  then obtain l x where w: "w = l @ x" and l: "l \<in> lang L"
    and x: "x \<in> star_lang (lang (Seq S L))"
    by blast
  from L [OF l] obtain q where "scan Idle l = Some q" by auto
  with scan_labels [OF S L x, of q] show ?thesis by (simp add: w scan_append)
qed

lemma findall_scan:
  assumes "(u, d) \<in> set (re_findall email_regex s)"
  shows "scan Idle d \<noteq> None"
proof -
  from findall_loop_ms [OF assms [unfolded re_findall_def]] obtain st b' r' g' where
    m: "(b', r', g') \<in> set (ms email_regex st)" and d: "d = group g' 2" by blast
  from scan_domain [OF reset_separator scan_label ms_email_regex_group [OF m]] d
  show ?thesis by simp
qed

subsection \<open>What \<open>re.sub\<close> leaves of a text\<close>

lemma take_prefix: "take (length t) s = t \<longleftrightarrow> prefix t s"
  by (auto simp: prefix_def) (metis append_take_drop_id)

lemma contains_prefix: "prefix t s \<Longrightarrow> contains s t"
  unfolding contains_iff prefix_def by (metis append_Nil)

lemma contains_behind: "contains y t \<Longrightarrow> contains (x @ y) t"
  unfolding contains_iff by (metis append_assoc)

lemma contains_set: "contains s t \<Longrightarrow> set t \<subseteq> set s"
  unfolding contains_iff by auto

lemma contains_after:
  assumes "set x \<inter> set t = {}" and "t \<noteq> []"
  shows "contains (x @ s) t \<Longrightarrow> contains s t"
  using assms(1)
proof (induction x)
  case Nil
  then show ?case by simp
next
  case (Cons a x)
  from Cons.prems(2) have a: "a \<notin> set t" by simp
  have "\<not> prefix t (a # x @ s)"
  proof
    assume "prefix t (a # x @ s)"
    with assms(2) have "hd t = a" by (cases t) auto
    with assms(2) a show False by (cases t) auto
  qed
  with Cons.prems(1) have "contains (x @ s) t" by (simp add: take_prefix del: take_Suc_Cons)
  with Cons show ?case by simp
qed

lemma sub_loop_prefix:
  assumes c: "consuming p" and ne: "repl \<noteq> []"
  shows "hd repl \<notin> set t \<Longrightarrow> prefix t (sub_loop p repl b r [] 0) \<Longrightarrow> prefix t r"
proof (induction t arbitrary: b r)
  case Nil
  show ?case by simp
next
  case (Cons a t)
  show ?case
  proof (cases r)
    case Nil
    with Cons.prems(2) show ?thesis by (simp add: sub_loop_Nil [OF c])
  next
    case r: (Cons x xs)
    show ?thesis
    proof (cases "ms p (b, x # xs, [])")
      case Nil
      from sub_loop_skip [OF c Nil]
      have u: "sub_loop p repl b (x # xs) [] 0 = x # sub_loop p repl (x # b) xs [] 0" .
      from Cons.prems(2) have "a = x" and "prefix t (sub_loop p repl (x # b) xs [] 0)"
        unfolding r u by simp_all
      moreover from Cons.prems(1) have "hd repl \<notin> set t" by simp
      ultimately show ?thesis using Cons.IH [of "x # b" xs] by (simp add: r)
    next
      case m: (Cons m rest)
      obtain be re g where "m = (be, re, g)" by (cases m) auto
      with m have "ms p (b, r, []) = (be, re, g) # rest" by (simp add: r)
      from sub_loop_match [OF c this]
      have "sub_loop p repl b r [] 0 = repl @ sub_loop p repl be re [] 0" .
      with Cons.prems(2) ne have "a = hd repl" by (cases repl) auto
      with Cons.prems(1) show ?thesis by simp
    qed
  qed
qed

lemma sub_loop_contains:
  assumes c: "consuming p" and ne: "repl \<noteq> []" and d: "set repl \<inter> set t = {}"
    and t: "t \<noteq> []"
  shows "contains (sub_loop p repl b r [] 0) t \<Longrightarrow> contains r t"
proof (induction "length r" arbitrary: b r rule: less_induct)
  case less
  from ne d have h: "hd repl \<notin> set t" by (cases repl) auto
  show ?case
  proof (cases r)
    case Nil
    with less.prems t show ?thesis by (simp add: sub_loop_Nil [OF c])
  next
    case r: (Cons x xs)
    show ?thesis
    proof (cases "ms p (b, x # xs, [])")
      case Nil
      from sub_loop_skip [OF c Nil]
      have u: "sub_loop p repl b (x # xs) [] 0 = x # sub_loop p repl (x # b) xs [] 0" .
      from less.prems have "prefix t (sub_loop p repl b r [] 0) \<or>
          contains (sub_loop p repl (x # b) xs [] 0) t"
        unfolding r u by (simp add: take_prefix del: take_Suc_Cons)
      then show ?thesis
      proof
        assume "prefix t (sub_loop p repl b r [] 0)"
        from sub_loop_prefix [OF c ne h this] show ?thesis by (rule contains_prefix)
      next
        assume "contains (sub_loop p repl (x # b) xs [] 0) t"
        from less.hyps [OF _ this] have "contains xs t" by (simp add: r)
        then show ?thesis by (simp add: r)
      qed
    next
      case m: (Cons m rest)
      obtain be re g where "m = (be, re, g)" by (cases m) auto
      with m have e: "ms p (b, r, []) = (be, re, g) # rest" by (simp add: r)
      then have i: "(be, re, g) \<in> set (ms p (b, r, []))" by simp
      from sub_loop_match [OF c e]
      have "sub_loop p repl b r [] 0 = repl @ sub_loop p repl be re [] 0" .
      with less.prems have "contains (sub_loop p repl be re [] 0) t"
        using contains_after [OF d t] by simp
      moreover from consuming_ms [OF c i] ms_len [OF i] have "length re < length r" by simp
      ultimately have "contains re t" by (rule less.hyps [rotated])
      moreover from ms_lang [OF i] obtain w where "r = w @ re" by blast
      ultimately show ?thesis by (simp add: contains_behind)
    qed
  qed
qed

lemma dot_regex_matches:
  assumes "prefix ''dot'' r"
  shows "ms dot_regex (b, r, g) \<noteq> []"
proof -
  from assms obtain r' where r: "r = ''dot'' @ r'" by (auto simp: prefix_def)
  have 1: "ms (Star (Cls ''([''))  (b, r, g) = [(b, r, g)]"
    by (rule ms_Star_Cls_stop) (simp add: r)
  from assms have 2: "ms (str ''dot'') (b, r, g) = [(rev ''dot'' @ b, drop (length ''dot'') r, g)]"
    by (simp only: ms_str if_True)
  have 3: "ms (Star (Cls '')]'')) (b', r', g) \<noteq> []" for b' r'
    using ms_Star_Cls_hd [of "'')]''" b' r' g] by auto
  show ?thesis
    unfolding dot_regex_def seqs.simps by (simp add: 1 2 3 del: ms.simps(6) str.simps)
qed

lemma sub_dot_no_dot: "\<not> contains (sub_loop dot_regex ''.'' b r [] 0) ''dot''"
proof (induction "length r" arbitrary: b r rule: less_induct)
  case less
  note c = consuming_patterns(3)
  show ?case
  proof (cases r)
    case Nil
    then show ?thesis by (simp add: sub_loop_Nil [OF c])
  next
    case r: (Cons x xs)
    show ?thesis
    proof (cases "ms dot_regex (b, x # xs, [])")
      case Nil
      from sub_loop_skip [OF c Nil]
      have u: "sub_loop dot_regex ''.'' b (x # xs) [] 0 = x # sub_loop dot_regex ''.'' (x # b) xs [] 0" .
      have "\<not> prefix ''dot'' (sub_loop dot_regex ''.'' b r [] 0)"
      proof
        assume "prefix ''dot'' (sub_loop dot_regex ''.'' b r [] 0)"
        from sub_loop_prefix [OF c _ _ this] have "prefix ''dot'' r" by simp
        from dot_regex_matches [OF this] Nil show False by (simp add: r)
      qed
      moreover have "\<not> contains (sub_loop dot_regex ''.'' (x # b) xs [] 0) ''dot''"
        by (rule less.hyps) (simp add: r)
      ultimately show ?thesis
        unfolding r u contains.simps take_prefix by simp
    next
      case m: (Cons m rest)
      obtain be re g where "m = (be, re, g)" by (cases m) auto
      with m have e: "ms dot_regex (b, r, []) = (be, re, g) # rest" by (simp add: r)
      then have i: "(be, re, g) \<in> set (ms dot_regex (b, r, []))" by simp
      from sub_loop_match [OF c e]
      have u: "sub_loop dot_regex ''.'' b r [] 0 = ''.'' @ sub_loop dot_regex ''.'' be re [] 0" .
      from consuming_ms [OF c i] ms_len [OF i] have "length re < length r" by simp
      then have "\<not> contains (sub_loop dot_regex ''.'' be re [] 0) ''dot''" by (rule less.hyps)
      then show ?thesis unfolding u by simp
    qed
  qed
qed

lemma sub_ws_no_ws: "set (sub_loop (plus ws) ''.'' b r [] 0) \<inter> set whitespace = {}"
proof (induction "length r" arbitrary: b r rule: less_induct)
  case less
  note c = consuming_patterns(2)
  show ?case
  proof (cases r)
    case Nil
    then show ?thesis by (simp add: sub_loop_Nil [OF c])
  next
    case r: (Cons x xs)
    show ?thesis
    proof (cases "ms (plus ws) (b, x # xs, [])")
      case Nil
      from sub_loop_skip [OF c Nil]
      have u: "sub_loop (plus ws) ''.'' b (x # xs) [] 0 = x # sub_loop (plus ws) ''.'' (x # b) xs [] 0" .
      have "x \<notin> set whitespace"
      proof
        assume "x \<in> set whitespace"
        from ms_plus_Cls_hd [OF this, of b xs "[]"] Nil show False by (simp add: ws_def)
      qed
      moreover have "set (sub_loop (plus ws) ''.'' (x # b) xs [] 0) \<inter> set whitespace = {}"
        by (rule less.hyps) (simp add: r)
      ultimately show ?thesis unfolding r u by simp
    next
      case m: (Cons m rest)
      obtain be re g where "m = (be, re, g)" by (cases m) auto
      with m have e: "ms (plus ws) (b, r, []) = (be, re, g) # rest" by (simp add: r)
      then have i: "(be, re, g) \<in> set (ms (plus ws) (b, r, []))" by simp
      from sub_loop_match [OF c e]
      have u: "sub_loop (plus ws) ''.'' b r [] 0 = ''.'' @ sub_loop (plus ws) ''.'' be re [] 0" .
      from consuming_ms [OF c i] ms_len [OF i] have "length re < length r" by simp
      then have "set (sub_loop (plus ws) ''.'' be re [] 0) \<inter> set whitespace = {}"
        by (rule less.hyps)
      then show ?thesis unfolding u by (simp add: whitespace_def)
    qed
  qed
qed

lemma filter_split:
  "filter P s = xs @ a # zs \<Longrightarrow> \<exists>u v. s = u @ a # v \<and> filter P u = xs \<and> filter P v = zs"
proof (induction s arbitrary: xs)
  case Nil
  then show ?case by simp
next
  case (Cons c s)
  show ?case
  proof (cases "P c")
    case False
    with Cons.prems have "filter P s = xs @ a # zs" by simp
    from Cons.IH [OF this] obtain u v where "s = u @ a # v" "filter P u = xs" "filter P v = zs"
      by blast
    with False have "c # s = (c # u) @ a # v \<and> filter P (c # u) = xs \<and> filter P v = zs"
      by simp
    then show ?thesis by blast
  next
    case True
    show ?thesis
    proof (cases xs)
      case Nil
      with True Cons.prems have "c # s = [] @ a # s \<and> filter P [] = xs \<and> filter P s = zs"
        by simp
      then show ?thesis by blast
    next
      case xs: (Cons x xs')
      with True Cons.prems have "c = x" and "filter P s = xs' @ a # zs" by simp_all
      from Cons.IH [OF this(2)] obtain u v where "s = u @ a # v" "filter P u = xs'"
        "filter P v = zs" by blast
      with True \<open>c = x\<close> xs have "c # s = (c # u) @ a # v \<and> filter P (c # u) = xs \<and>
          filter P v = zs" by simp
      then show ?thesis by blast
    qed
  qed
qed

lemma filter_three:
  assumes "contains (filter P s) [x, y, z]"
  shows "\<exists>v w. (\<forall>e\<in>set v \<union> set w. \<not> P e) \<and> contains s (x # v @ y # w @ [z])"
proof -
  from assms obtain xs ys where "filter P s = xs @ x # y # z # ys"
    unfolding contains_iff by auto
  from filter_split [OF this] obtain u s1 where s: "s = u @ x # s1"
    and "filter P s1 = y # z # ys" by blast
  from this(2) obtain v s2 where s1: "s1 = v @ y # s2" and v: "\<forall>e\<in>set v. \<not> P e"
    and "z # ys = filter P s2"
    unfolding filter_eq_Cons_iff by auto
  from this(3) obtain w s3 where s2: "s2 = w @ z # s3" and w: "\<forall>e\<in>set w. \<not> P e"
    unfolding Cons_eq_filter_iff by auto
  have "s = u @ (x # v @ y # w @ [z]) @ s3" by (simp add: s s1 s2)
  then have "contains s (x # v @ y # w @ [z])" unfolding contains_iff by blast
  with v w show ?thesis by blast
qed

subsection \<open>No dot marker in a cleaned domain\<close>

lemma scan_gap_pattern:
  assumes x: "x \<in> set ''do''" and y: "y \<in> set ''ot''" and v: "gaps v" and ne: "v \<noteq> []"
    and c: "contains s (x # v @ [y])"
  shows "scan q s = None"
proof -
  from c obtain xs ys where s: "s = xs @ (x # v @ [y]) @ ys"
    unfolding contains_iff by blast
  from x y have g: "\<not> gap_char x" "\<not> gap_char y"
    by (auto simp: gap_char_def dns_chars_def alnum_def lower_az_def)
  have "scan q' (x # v @ y # ys) = None" for q'
  proof -
    from scan_gaps [OF v, of Armed] ne have "scan Armed v = Some Gapped" by simp
    with y g have "scan Armed (v @ y # ys) = None" by (simp add: scan_append)
    with x g show ?thesis by auto
  qed
  then show ?thesis by (simp add: s scan_append split: option.splits)
qed

lemma gap_pattern_back:
  assumes x: "x \<in> set ''do''" and y: "y \<in> set ''ot''"
    and v: "\<forall>e\<in>set v. e \<notin> set dns_chars"
    and c: "contains (re_sub dot_regex ''.'' (re_sub (plus ws) ''.''
        (re_sub gmail_synonyms_regex ''gmail'' d))) (x # v @ [y])"
  shows "gaps v \<and> contains d (x # v @ [y])"
proof -
  let ?t = "x # v @ [y]"
  define r1 where "r1 = sub_loop gmail_synonyms_regex ''gmail'' [] d [] 0"
  define r2 where "r2 = sub_loop (plus ws) ''.'' [] r1 [] 0"
  have "set ''.gmail'' \<subseteq> set dns_chars"
    by (simp add: dns_chars_def alnum_def lower_az_def)
  with x y v have d1: "set ''.'' \<inter> set ?t = {}" and d2: "set ''gmail'' \<inter> set ?t = {}"
    by auto
  have t: "?t \<noteq> []" by simp
  from c have "contains (sub_loop dot_regex ''.'' [] r2 [] 0) ?t"
    by (simp only: re_sub_def r1_def r2_def)
  from sub_loop_contains [OF consuming_patterns(3) _ d1 t this] have c2: "contains r2 ?t"
    by simp
  from contains_set [OF c2] sub_ws_no_ws [of "[]" r1] have "set v \<inter> set whitespace = {}"
    unfolding r2_def by auto
  with v have "gaps v" by (auto simp: gaps_def gap_char_def)
  moreover from sub_loop_contains [OF consuming_patterns(2) _ d1 t c2 [unfolded r2_def]]
  have c1: "contains r1 ?t" by simp
  from sub_loop_contains [OF consuming_patterns(1) _ d2 t c1 [unfolded r1_def]]
  have "contains d ?t" by simp
  ultimately show ?thesis by simp
qed

lemma common_domains_no_dot:
  "\<forall>s\<in>set common_domains. \<not> contains (s @ ''.com'') ''dot'' \<and>
      \<not> contains (s @ [CHR 0x0A] @ ''.com'') ''dot''"
  by code_simp

lemma scan_no_dot:
  assumes s: "scan Idle d \<noteq> None"
  shows "\<not> contains (clean_domain d) ''dot''"
proof -
  define r3 where "r3 = re_sub dot_regex ''.'' (re_sub (plus ws) ''.''
      (re_sub gmail_synonyms_regex ''gmail'' d))"
  define r4 where "r4 = re_sub non_dns_regex [] r3"
  define r5 where "r5 = re_sub (plus (Cls ''.'')) ''.'' r4"
  define r7 where "r7 = (if re_match (Seq common_domains_regex Eol) (strip r5)
      then strip r5 @ ''.com'' else strip r5)"
  have cd: "clean_domain d = (if \<not> contains r7 ''.'' then []
      else if contains r7 ''gmail'' \<and> r7 \<noteq> ''gmail.com'' then [] else r7)"
    unfolding clean_domain_def Let_def r7_def r5_def r4_def r3_def ..
  have n3: "\<not> contains r3 ''dot''"
    unfolding r3_def re_sub_def by (rule sub_dot_no_dot)
  have gp: False if x: "x \<in> set ''do''" and y: "y \<in> set ''ot''"
    and v: "\<forall>e\<in>set v. e \<notin> set dns_chars" and ne: "v \<noteq> []"
    and c: "contains r3 (x # v @ [y])" for x y v
  proof -
    from gap_pattern_back [OF x y v c [unfolded r3_def]]
    have "gaps v" and "contains d (x # v @ [y])" by simp_all
    from scan_gap_pattern [OF x y this(1) ne this(2)] s show False by simp
  qed
  have n4: "\<not> contains r4 ''dot''"
  proof
    assume "contains r4 ''dot''"
    then have "contains (filter (\<lambda>c. c \<in> set dns_chars) r3) ''dot''"
      unfolding r4_def re_sub_def non_dns_regex_dns_chars sub_non_dns .
    from filter_three [OF this] obtain v w where vw: "\<forall>e\<in>set v \<union> set w. e \<notin> set dns_chars"
      and "contains r3 (CHR ''d'' # v @ CHR ''o'' # w @ ''t'')" by blast
    then obtain xs ys where r3: "r3 = xs @ (CHR ''d'' # v @ CHR ''o'' # w @ ''t'') @ ys"
      unfolding contains_iff by blast
    show False
    proof (cases "v = []")
      case False
      have "r3 = xs @ (CHR ''d'' # v @ ''o'') @ (w @ ''t'' @ ys)" by (simp add: r3)
      then have "contains r3 (CHR ''d'' # v @ ''o'')" unfolding contains_iff by blast
      with vw False show False by (intro gp [of "CHR ''d''" "CHR ''o''" v]) simp_all
    next
      case v: True
      show False
      proof (cases "w = []")
        case False
        have "r3 = (xs @ ''d'') @ (CHR ''o'' # w @ ''t'') @ ys" by (simp add: r3 v)
        then have "contains r3 (CHR ''o'' # w @ ''t'')" unfolding contains_iff by blast
        with vw False show False by (intro gp [of "CHR ''o''" "CHR ''t''" w]) simp_all
      next
        case True
        with v r3 have "r3 = xs @ ''dot'' @ ys" by simp
        with n3 show False unfolding contains_iff by blast
      qed
    qed
  qed
  have d4: "set r4 \<subseteq> set dns_chars"
    unfolding r4_def re_sub_def non_dns_regex_dns_chars sub_non_dns by auto
  have n5: "\<not> contains r5 ''dot''"
  proof
    assume "contains r5 ''dot''"
    from sub_loop_contains [OF consuming_plus_Cls _ _ _ this [unfolded r5_def re_sub_def]] n4
    show False by simp
  qed
  from sub_dots_props [of "[]" r4] have "set r5 \<subseteq> set r4"
    unfolding r5_def re_sub_def by simp
  with d4 have "set r5 \<subseteq> set dns_chars" by simp
  then have s6: "strip r5 = r5" by (intro strip_id) (auto dest: dns_not_space)
  have n7: "\<not> contains r7 ''dot''"
  proof (cases "re_match (Seq common_domains_regex Eol) r5")
    case False
    with n5 show ?thesis by (simp add: r7_def s6)
  next
    case True
    from re_match_common [OF this] obtain c where "c \<in> set common_domains"
      and "r5 = c \<or> r5 = c @ [CHR 0x0A]" by blast
    with common_domains_no_dot have "\<not> contains (r5 @ ''.com'') ''dot''" by auto
    with True show ?thesis by (simp add: r7_def s6)
  qed
  with cd show ?thesis by (simp del: contains.simps) simp
qed

text \<open>
  Claim C2. \<open>clean_domain\<close> is idempotent on canonical domains: the canonical domains
  are the results of \<open>clean_domain\<close> on the domain fragments that \<open>re.findall\<close> captures
  with \<open>email_regex\<close> (the rejection, the empty string, included), in any text;
  \<open>clean_domain\<close> returns each of them unchanged.
\<close>

theorem clean_domain_idempotent_matched:
  "(u, d) \<in> set (re_findall email_regex s) \<Longrightarrow>
     clean_domain (clean_domain d) = clean_domain d"
  by (rule clean_domain_twice [OF scan_no_dot [OF findall_scan]])

theorem clean_domain_idempotent_matched_witness:
  "(''marycomeaux62'', ''gmail(dot)com'') \<in>
     set (re_findall email_regex ''marycomeaux62(@)gmail(dot)com'') \<and>
   clean_domain ''gmail(dot)com'' = ''gmail.com'' \<and>
   clean_domain (clean_domain ''gmail(dot)com'') = clean_domain ''gmail(dot)com''"
proof -
  have "re_findall email_regex ''marycomeaux62(@)gmail(dot)com'' =
      [(''marycomeaux62'', ''gmail(dot)com'')]"
    by code_simp
  then have m: "(''marycomeaux62'', ''gmail(dot)com'') \<in>
      set (re_findall email_regex ''marycomeaux62(@)gmail(dot)com'')"
    by simp
  have e: "clean_domain ''gmail(dot)com'' = ''gmail.com''" by code_simp
  from clean_domain_idempotent_matched [OF m] m e show ?thesis by blast
qed

subsection \<open>The domains of \<open>extract_domain\<close>\<close>

text \<open>
  \<open>extract_domain\<close> captures its fragments without regard to case. A dot marker with a
  capital letter is not replaced, but its letters stay together, so the result holds no
  \<open>dot\<close> in small letters either: every domain that \<open>extract_domain\<close> returns is returned
  unchanged by \<open>clean_domain\<close>.
\<close>

lemma ignore_case_plus: "ignore_case (plus p) = plus (ignore_case p)"
  by (simp add: plus_def)

lemma lower_char_cases: "lower_char c = c \<or> lower_char c \<in> set lower_az"
  by (auto simp: lower_char_def split: option.splits dest!: map_of_SomeD dest: set_zip_rightD)

lemma upper_char_cases: "upper_char c = c \<or> upper_char c \<in> set upper_AZ"
  by (auto simp: upper_char_def split: option.splits dest!: map_of_SomeD dest: set_zip_rightD)

lemma set_either_case: "set (either_case cs) \<subseteq> set cs \<union> set lower_az \<union> set upper_AZ"
proof
  fix x assume "x \<in> set (either_case cs)"
  then obtain c where c: "c \<in> set cs" and "x = lower_char c \<or> x = upper_char (lower_char c)"
    by (auto simp: either_case_def)
  with lower_char_cases [of c] upper_char_cases [of "lower_char c"]
  show "x \<in> set cs \<union> set lower_az \<union> set upper_AZ" by auto
qed

lemma either_case_alnum:
  "set cs \<subseteq> set (alnum @ ''-'') \<Longrightarrow> \<forall>c\<in>set (either_case cs). \<not> gap_char c"
proof -
  assume "set cs \<subseteq> set (alnum @ ''-'')"
  with set_either_case [of cs] have "set (either_case cs) \<subseteq> set (alnum @ ''-'')"
    by (auto simp: alnum_def)
  then show ?thesis using alnum_not_gap by blast
qed

lemma either_case_brackets:
  "either_case '','' = '',,''" "either_case ''('' = ''((''" "either_case '')'' = ''))''"
  "either_case ''['' = ''[[''" "either_case '']'' = '']]''" "either_case ''{'' = ''{{''"
  "either_case ''}'' = ''}}''" "either_case ''(['' = ''([([''" "either_case '')]'' = '')])]''"
  "either_case ''.'' = ''..''"
  by (simp_all add: either_case_def lower_char_def upper_char_def lower_az_def upper_AZ_def)

lemma either_case_whitespace: "set (either_case whitespace) = set whitespace"
  by (auto simp: either_case_def lower_char_def upper_char_def lower_az_def upper_AZ_def
      whitespace_def)

lemma soft_brackets_ic:
  "soft_re (Cls (either_case '',''))" "soft_re (Cls (either_case ''(''))"
  "soft_re (Cls (either_case '')''))" "soft_re (Cls (either_case ''[''))"
  "soft_re (Cls (either_case '']''))" "soft_re (Cls (either_case ''{''))"
  "soft_re (Cls (either_case ''}''))" "soft_re (Cls (either_case ''([''))"
  "soft_re (Cls (either_case '')]''))"
  unfolding either_case_brackets
  by (rule soft_Cls, simp add: alnum_def lower_az_def upper_AZ_def digits_def)+

lemma reset_dots_ic:
  "reset_re (Cls (either_case ''.''))" "reset_re (Cls (either_case whitespace))"
  "reset_re (Cls (either_case (CHR ''.'' # whitespace)))"
proof -
  show "reset_re (Cls (either_case ''.''))"
    unfolding either_case_brackets by (rule reset_Cls) simp
  show "reset_re (Cls (either_case whitespace))"
    by (rule reset_Cls) (simp add: either_case_whitespace)
  have "set (either_case (CHR ''.'' # whitespace)) = set (CHR ''.'' # whitespace)"
    using either_case_whitespace
    by (simp add: either_case_def lower_char_def upper_char_def lower_az_def upper_AZ_def)
  then show "reset_re (Cls (either_case (CHR ''.'' # whitespace)))"
    by (intro reset_Cls) simp
qed

lemma reset_dot_ic: "reset_re (ignore_case (str ''dot''))"
  by (auto simp: reset_re_def reset_def either_case_def lower_char_def upper_char_def
      lower_az_def upper_AZ_def gap_char_def dns_chars_def alnum_def)

lemma reset_dot_regex_ic: "reset_re (ignore_case dot_regex)"
  unfolding dot_regex_def seqs.simps ignore_case.simps
  by (intro soft_Seq_reset reset_Seq_soft soft_Seq soft_Star soft_brackets_ic soft_empty
      reset_dot_ic)

lemma reset_separator_ic: "reset_re (ignore_case dns_separator_regex)"
  unfolding dns_separator_regex_def dns_separator_regexes_def ws_def
  by (simp add: ignore_case_plus del: str.simps, intro reset_Alt;
      blast intro: reset_Seq_soft soft_Seq_reset soft_Seq soft_Alt soft_Star soft_plus
        reset_plus reset_Alt reset_soft soft_brackets_ic soft_empty reset_dots_ic
        reset_dot_regex_ic)

lemma lang_basic_label_ic:
  assumes "w \<in> lang (ignore_case basic_dns_label_regex)"
  shows "\<forall>c\<in>set w. \<not> gap_char c"
proof -
  from assms obtain a m z where w: "w = [a] @ m @ [z]" and a: "a \<in> set (either_case alnum)"
    and m: "m \<in> lang (Star (Cls (either_case (alnum @ ''-''))))"
    and z: "z \<in> set (either_case alnum)"
    unfolding basic_dns_label_regex_def by auto
  from a z either_case_alnum [of alnum] have "\<not> gap_char a" "\<not> gap_char z" by auto
  moreover from lang_Star_Cls [OF m] either_case_alnum [of "alnum @ ''-''"]
  have "\<forall>c\<in>set m. \<not> gap_char c" by auto
  ultimately show ?thesis unfolding w by simp
qed

lemma scan_label_ic:
  assumes "w \<in> lang (ignore_case dns_label_regex)"
  shows "scan Idle w \<noteq> None"
proof -
  from assms consider "w \<in> lang (ignore_case basic_dns_label_regex)"
    | x v y where "w = x @ v @ y" "x \<in> lang (plus (Cls (either_case ''('')))"
        "v \<in> lang (ignore_case basic_dns_label_regex)"
        "y \<in> lang (plus (Cls (either_case '')'')))"
    | x v y where "w = x @ v @ y" "x \<in> lang (plus (Cls (either_case ''['')))"
        "v \<in> lang (ignore_case basic_dns_label_regex)"
        "y \<in> lang (plus (Cls (either_case '']'')))"
    unfolding dns_label_regex_def wrapped_basic_dns_label_regexes_def
    by (auto simp: ignore_case_plus)
  then show ?thesis
  proof cases
    case 1
    from scan_wrapped [OF _ lang_basic_label_ic [OF 1], of "[]" "[]"] show ?thesis
      by (simp add: gaps_def)
  next
    case 2
    from lang_plus_Cls [OF 2(2)] lang_plus_Cls [OF 2(4)] have "gaps x" "gaps y"
      unfolding either_case_brackets
      by (auto simp: gaps_def gap_char_def dns_chars_def alnum_def lower_az_def upper_AZ_def
          digits_def whitespace_def)
    from scan_wrapped [OF this(1) lang_basic_label_ic [OF 2(3)] this(2)] 2(1) show ?thesis
      by simp
  next
    case 3
    from lang_plus_Cls [OF 3(2)] lang_plus_Cls [OF 3(4)] have "gaps x" "gaps y"
      unfolding either_case_brackets
      by (auto simp: gaps_def gap_char_def dns_chars_def alnum_def lower_az_def upper_AZ_def
          digits_def whitespace_def)
    from scan_wrapped [OF this(1) lang_basic_label_ic [OF 3(3)] this(2)] 3(1) show ?thesis
      by simp
  qed
qed

lemma findall_scan_ic:
  assumes "(u, d) \<in> set (re_findall (ignore_case dns_re) s)"
  shows "scan Idle d \<noteq> None"
proof -
  let ?G = "Seq (ignore_case dns_label_regex)
      (Star (Seq (ignore_case dns_separator_regex) (ignore_case dns_label_regex)))"
  from findall_loop_ms [OF assms [unfolded re_findall_def]] obtain st b' r' g' where
    m: "(b', r', g') \<in> set (ms (ignore_case dns_re) st)" and d: "d = group g' 2" by blast
  from m obtain st1 where "(b', r', g') \<in> set (ms (Grp 2 ?G) st1)"
    unfolding dns_re_def by (auto simp del: ms.simps(9))
  then have "group g' 2 \<in> lang ?G"
    by (cases st1) (auto dest: ms_Grp_group simp del: ms.simps lang.simps)
  from scan_domain [OF reset_separator_ic scan_label_ic this] d show ?thesis by simp
qed

lemma extract_domain_fixed:
  assumes "x \<in> set (extract_domain s)"
  shows "clean_domain x = x"
proof -
  from assms obtain u d where m: "(u, d) \<in> set (re_findall (ignore_case dns_re) s)"
    and x: "x = clean_domain d"
    unfolding extract_domain_def Let_def by auto
  from clean_domain_twice [OF scan_no_dot [OF findall_scan_ic [OF m]]] x show ?thesis by simp
qed

lemma extract_domain_sample:
  "extract_domain ''joe@Example.COM or joe @ xy [DOT] (org) . uk'' =
     [''Example.COM'', ''xy.DOT.org.uk'']"
  by code_simp

text \<open>
  The argument of \<open>clean_domain\<close> is a captured fragment. On other texts a second call
  can change the result: an underscore, which no label of a captured domain holds,
  is stripped after the dot markers were replaced.
\<close>

lemma clean_domain_other_text:
  "clean_domain ''d_ot.com'' = ''dot.com'' \<and> clean_domain ''dot.com'' = ''.com''"
  by code_simp

end
